theory Spec2Isabelle
  imports Complex_Main "HOL-Library.Word" "HOL-Library.Monad_Syntax"
begin

unbundle bit_operations_syntax

section \<open>Values of the program\<close>

text \<open>
  The buffer is a \<open>std::vector<unsigned char>\<close>: a list of 8-bit words. Sizes and
  indices (\<open>size_t\<close>) are natural numbers; where the source subtracts from a size the
  64-bit wrap-around is written out (\<open>usub\<close>). \<open>unsigned long long\<close> and
  \<open>unsigned long\<close> (LP64) values are 64-bit words, \<open>int\<close> counters are integers
  whose increment past \<open>INT_MAX\<close> is an error of the model (undefined behaviour of
  the source).
\<close>

type_synonym byte = "8 word"
type_synonym ull = "64 word"

text \<open>
  A \<open>double\<close> is either a finite number or one of the three non-finite values of
  IEEE 754 binary64. An arithmetic operation on finite values yields the exact result
  rounded to the nearest binary64 value, ties to even (\<open>round_double\<close>): the unit in
  the last place of \<open>x\<close> is \<open>2\<close> to the power \<open>max \<lfloor>log2 \<bar>x\<bar>\<rfloor> (-1022) - 52\<close>, which
  covers the subnormal numbers, and a rounded magnitude of \<open>2^1024\<close> or more is an
  infinity. The sign of zero is outside the model. Every zero divisor of this program
  is a converted unsigned count, a difference of equal values, or a square root of
  such, so a zero divisor stands for +0.
\<close>

datatype double = Finite real | PInf | NInf | NaN

definition round_even :: "real \<Rightarrow> int" where
  "round_even x =
     (let f = \<lfloor>x\<rfloor>; d = x - of_int f
      in if d < 1 / 2 then f else if 1 / 2 < d then f + 1 else if even f then f else f + 1)"

definition ulp_exponent :: "real \<Rightarrow> int" where
  "ulp_exponent x = max \<lfloor>log 2 \<bar>x\<bar>\<rfloor> (- 1022) - 52"

definition round_double :: "real \<Rightarrow> double" where
  "round_double x =
     (if x = 0 then Finite 0
      else
        (let e = ulp_exponent x;
             y = of_int (round_even (x / 2 powr of_int e)) * 2 powr of_int e
         in if 2 ^ 1024 \<le> \<bar>y\<bar> then (if 0 < x then PInf else NInf) else Finite y))"

definition signed_inf :: "real \<Rightarrow> double" where
  "signed_inf r = (if r = 0 then NaN else if 0 < r then PInf else NInf)"

fun dneg :: "double \<Rightarrow> double" where
  "dneg (Finite a) = Finite (- a)"
| "dneg PInf = NInf"
| "dneg NInf = PInf"
| "dneg NaN = NaN"

fun dadd :: "double \<Rightarrow> double \<Rightarrow> double" where
  "dadd (Finite a) (Finite b) = round_double (a + b)"
| "dadd NaN _ = NaN"
| "dadd _ NaN = NaN"
| "dadd PInf NInf = NaN"
| "dadd NInf PInf = NaN"
| "dadd PInf _ = PInf"
| "dadd NInf _ = NInf"
| "dadd _ PInf = PInf"
| "dadd _ NInf = NInf"

definition dsub :: "double \<Rightarrow> double \<Rightarrow> double" where
  "dsub a b = dadd a (dneg b)"

fun dmul :: "double \<Rightarrow> double \<Rightarrow> double" where
  "dmul (Finite a) (Finite b) = round_double (a * b)"
| "dmul NaN _ = NaN"
| "dmul _ NaN = NaN"
| "dmul PInf (Finite b) = signed_inf b"
| "dmul NInf (Finite b) = signed_inf (- b)"
| "dmul (Finite a) PInf = signed_inf a"
| "dmul (Finite a) NInf = signed_inf (- a)"
| "dmul PInf PInf = PInf"
| "dmul NInf NInf = PInf"
| "dmul PInf NInf = NInf"
| "dmul NInf PInf = NInf"

fun ddiv :: "double \<Rightarrow> double \<Rightarrow> double" where
  "ddiv (Finite a) (Finite b) = (if b = 0 then signed_inf a else round_double (a / b))"
| "ddiv NaN _ = NaN"
| "ddiv _ NaN = NaN"
| "ddiv (Finite a) PInf = Finite 0"
| "ddiv (Finite a) NInf = Finite 0"
| "ddiv PInf (Finite b) = (if b < 0 then NInf else PInf)"
| "ddiv NInf (Finite b) = (if b < 0 then PInf else NInf)"
| "ddiv PInf PInf = NaN"
| "ddiv PInf NInf = NaN"
| "ddiv NInf PInf = NaN"
| "ddiv NInf NInf = NaN"

text \<open>Comparisons: every comparison with NaN is false.\<close>

fun dlt :: "double \<Rightarrow> double \<Rightarrow> bool" where
  "dlt (Finite a) (Finite b) = (a < b)"
| "dlt NaN _ = False"
| "dlt _ NaN = False"
| "dlt NInf NInf = False"
| "dlt NInf _ = True"
| "dlt PInf _ = False"
| "dlt (Finite a) PInf = True"
| "dlt (Finite a) NInf = False"

definition dgt :: "double \<Rightarrow> double \<Rightarrow> bool" where
  "dgt a b = dlt b a"

fun dle :: "double \<Rightarrow> double \<Rightarrow> bool" where
  "dle (Finite a) (Finite b) = (a \<le> b)"
| "dle NaN _ = False"
| "dle _ NaN = False"
| "dle NInf _ = True"
| "dle PInf PInf = True"
| "dle PInf _ = False"
| "dle (Finite a) PInf = True"
| "dle (Finite a) NInf = False"

definition dge :: "double \<Rightarrow> double \<Rightarrow> bool" where
  "dge a b = dle b a"

text \<open>
  The functions of \<open><cmath>\<close> the program calls. \<open>std::sqrt\<close> is correctly rounded
  by IEEE 754; \<open>std::log2\<close> and \<open>erfc\<close> are taken as correctly rounded too (the C
  library promises them only up to a small error). No theorem below depends on how
  these two round: wherever a statement mentions them, both sides apply the same
  function to the same argument.
\<close>

fun dsqrt :: "double \<Rightarrow> double" where
  "dsqrt (Finite a) = (if a < 0 then NaN else round_double (sqrt a))"
| "dsqrt PInf = PInf"
| "dsqrt NInf = NaN"
| "dsqrt NaN = NaN"

fun dlog2 :: "double \<Rightarrow> double" where
  "dlog2 (Finite a) =
     (if a < 0 then NaN else if a = 0 then NInf else round_double (log 2 a))"
| "dlog2 PInf = PInf"
| "dlog2 NInf = NaN"
| "dlog2 NaN = NaN"

text \<open>
  The complementary error function, by the power series of the error function:
  \<open>erfc x = 1 - 2 / sqrt pi * (x - x^3 / 3 + x^5 / 10 - x^7 / 42 + ...)\<close>.
\<close>

definition erfc :: "real \<Rightarrow> real" where
  "erfc x = 1 - 2 / sqrt pi * (\<Sum>n. (- 1) ^ n * x ^ (2 * n + 1) / (fact n * real (2 * n + 1)))"

fun derfc :: "double \<Rightarrow> double" where
  "derfc (Finite a) = round_double (erfc a)"
| "derfc PInf = Finite 0"
| "derfc NInf = Finite 2"
| "derfc NaN = NaN"

text \<open>
  Conversions to \<open>double\<close>. A 64-bit unsigned value is rounded; an \<open>int\<close> (32 bits)
  and an \<open>unsigned char\<close> are binary64 values as they are.
\<close>

definition of_size :: "nat \<Rightarrow> double" where
  "of_size n = round_double (real n)"

definition of_c_int :: "int \<Rightarrow> double" where
  "of_c_int i = Finite (real_of_int i)"

definition of_ull :: "ull \<Rightarrow> double" where
  "of_ull w = round_double (real (unat w))"

definition of_byte :: "byte \<Rightarrow> double" where
  "of_byte b = Finite (real (unat b))"

text \<open>Unsigned 64-bit subtraction \<open>a - k\<close> on sizes.\<close>

definition usub :: "nat \<Rightarrow> nat \<Rightarrow> nat" where
  "usub a k = (a + 2 ^ 64 - k) mod 2 ^ 64"

section \<open>The object\<close>

record ent =
  data :: "byte list"
  entropy :: double
  compression :: double
  chisquare :: double
  p_value :: double
  mean :: double
  pi_estimate :: double
  serial_correlation :: double
  streamOfBitsMode :: bool
  printTableMode :: bool
  foldCaseMode :: bool
  terseMode :: bool
  printResultMode :: bool

datatype error = OutOfRange | SignedOverflow

text \<open>
  The constructor, after the file or the input stream has been read into \<open>data\<close>, and
  the setters of the two flags that \<open>calculate\<close> reads.
\<close>

definition Ent :: "byte list \<Rightarrow> ent" where
  "Ent bs =
     \<lparr>data = bs, entropy = Finite 0, compression = Finite 0, chisquare = Finite 0,
      p_value = Finite 0, mean = Finite 0, pi_estimate = Finite 0,
      serial_correlation = Finite 0, streamOfBitsMode = False, printTableMode = False,
      foldCaseMode = False, terseMode = False, printResultMode = True\<rparr>"

definition setStreamOfBitsMode :: "bool \<Rightarrow> ent \<Rightarrow> ent" where
  "setStreamOfBitsMode mode s = s\<lparr>streamOfBitsMode := mode\<rparr>"

definition setFoldCaseMode :: "bool \<Rightarrow> ent \<Rightarrow> ent" where
  "setFoldCaseMode mode s = s\<lparr>foldCaseMode := mode\<rparr>"

section \<open>Entropy\<close>

text \<open>\<open>int bitValue = (byte >> bit) & 1;\<close>\<close>

definition bitValue :: "byte \<Rightarrow> nat \<Rightarrow> nat" where
  "bitValue byte b = unat (drop_bit b byte AND 1)"

text \<open>
  \<open>frequencies[k]++\<close> on a \<open>std::vector<double>\<close>. The index is a bit value or a
  byte value, below the vector's size 2 or 256.
\<close>

definition bump :: "double list \<Rightarrow> nat \<Rightarrow> double list" where
  "bump fs k = fs[k := dadd (fs ! k) (Finite 1)]"

definition bit_frequencies :: "byte list \<Rightarrow> double list" where
  "bit_frequencies bs =
     foldl (\<lambda>fs byte. foldl (\<lambda>fs b. bump fs (bitValue byte b)) fs [0..<8])
       (replicate 2 (Finite 0)) bs"

definition byte_frequencies :: "byte list \<Rightarrow> double list" where
  "byte_frequencies bs =
     foldl (\<lambda>fs byte. bump fs (unat byte)) (replicate 256 (Finite 0)) bs"

text \<open>
  The second loop: \<open>frequency /= total; if (frequency > 0) entropy -= frequency *
  log2(frequency);\<close> starting from \<open>entropy = 0.0\<close>.
\<close>

definition entropy_step :: "double \<Rightarrow> double \<Rightarrow> double \<Rightarrow> double" where
  "entropy_step tot e frequency =
     (let f = ddiv frequency tot
      in if dgt f (Finite 0) then dsub e (dmul f (dlog2 f)) else e)"

definition entropy_sum :: "double \<Rightarrow> double list \<Rightarrow> double" where
  "entropy_sum tot fs = foldl (entropy_step tot) (Finite 0) fs"

definition compression_of :: "double \<Rightarrow> double \<Rightarrow> double" where
  "compression_of e max_entropy =
     dmul (Finite 100) (dsub (Finite 1) (ddiv e max_entropy))"

definition calculate_entropy :: "ent \<Rightarrow> ent" where
  "calculate_entropy s =
     (if streamOfBitsMode s then
        (let frequencies = bit_frequencies (data s);
             totalBits = dmul (Finite 8) (of_size (length (data s)));
             e = entropy_sum totalBits frequencies
         in s\<lparr>entropy := e, compression := compression_of e (Finite 1)\<rparr>)
      else
        (let frequencies = byte_frequencies (data s);
             e = entropy_sum (of_size (length (data s))) frequencies
         in s\<lparr>entropy := e, compression := compression_of e (Finite 8)\<rparr>))"

section \<open>Chi-square\<close>

text \<open>
  \<open>observed[k]++\<close> on a \<open>std::vector<int>\<close>: incrementing \<open>INT_MAX\<close> is signed
  overflow. The index is a bit value or a byte value, below the vector's size.
\<close>

definition observe :: "int list \<Rightarrow> nat \<Rightarrow> error + int list" where
  "observe obs k =
     (if obs ! k = 2147483647 then Inl SignedOverflow else Inr (obs[k := obs ! k + 1]))"

fun observe_all :: "int list \<Rightarrow> nat list \<Rightarrow> error + int list" where
  "observe_all obs [] = Inr obs"
| "observe_all obs (k # ks) =
     (case observe obs k of Inl e \<Rightarrow> Inl e | Inr obs' \<Rightarrow> observe_all obs' ks)"

text \<open>The outer loop over the bytes in Bit mode; the inner loop runs over bits 0 to 7.\<close>

fun observed_bits :: "int list \<Rightarrow> byte list \<Rightarrow> error + int list" where
  "observed_bits obs [] = Inr obs"
| "observed_bits obs (byte # bs) =
     (case observe_all obs (map (bitValue byte) [0..<8]) of
        Inl e \<Rightarrow> Inl e
      | Inr obs' \<Rightarrow> observed_bits obs' bs)"

definition observed_bytes :: "int list \<Rightarrow> byte list \<Rightarrow> error + int list" where
  "observed_bytes obs bs = observe_all obs (map unat bs)"

text \<open>\<open>double diff = observed[i] - expected; chisquare += diff * diff / expected;\<close>\<close>

definition chisquare_step :: "double \<Rightarrow> double \<Rightarrow> int \<Rightarrow> double" where
  "chisquare_step expected c obs =
     (let diff = dsub (of_c_int obs) expected
      in dadd c (ddiv (dmul diff diff) expected))"

definition chisquare_sum :: "double \<Rightarrow> int list \<Rightarrow> double" where
  "chisquare_sum expected observed = foldl (chisquare_step expected) (Finite 0) observed"

text \<open>
  \<open>0.5 * erfc(-x * M_SQRT1_2)\<close>; the constant \<open>M_SQRT1_2\<close> is the binary64 value
  nearest to \<open>1 / sqrt 2\<close>.
\<close>

definition norm_cdf :: "double \<Rightarrow> double" where
  "norm_cdf x = dmul (Finite (1 / 2)) (derfc (dmul (dneg x) (round_double (1 / sqrt 2))))"

definition p_value_of :: "double \<Rightarrow> int \<Rightarrow> double" where
  "p_value_of c degree_of_freedom =
     (let z = dsqrt (dsub c (of_c_int degree_of_freedom))
      in dsub (Finite 1) (norm_cdf z))"

definition calculate_chisquare :: "ent \<Rightarrow> error + ent" where
  "calculate_chisquare s =
     (if streamOfBitsMode s then
        (let expected = ddiv (dmul (Finite 8) (of_size (length (data s)))) (Finite 2)
         in case observed_bits (replicate 2 0) (data s) of
              Inl e \<Rightarrow> Inl e
            | Inr observed \<Rightarrow>
                (let c = chisquare_sum expected observed
                 in Inr (s\<lparr>chisquare := c, p_value := p_value_of c 1\<rparr>)))
      else
        (let expected = ddiv (of_size (length (data s))) (Finite 256)
         in case observed_bytes (replicate 256 0) (data s) of
              Inl e \<Rightarrow> Inl e
            | Inr observed \<Rightarrow>
                (let c = chisquare_sum expected observed
                 in Inr (s\<lparr>chisquare := c, p_value := p_value_of c 255\<rparr>))))"

section \<open>Mean\<close>

text \<open>\<open>std::accumulate(data.begin(), data.end(), 0.0)\<close>, then \<open>sum / data.size()\<close>.\<close>

definition accumulate :: "byte list \<Rightarrow> double" where
  "accumulate bs = foldl (\<lambda>acc b. dadd acc (of_byte b)) (Finite 0) bs"

definition calculate_mean :: "ent \<Rightarrow> ent" where
  "calculate_mean s = s\<lparr>mean := ddiv (accumulate (data s)) (of_size (length (data s)))\<rparr>"

section \<open>Monte Carlo value for Pi\<close>

text \<open>
  \<open>data[i]\<close> is an unchecked read; outside the vector it is undefined behaviour, which
  the model reports as \<open>OutOfRange\<close>. An index that is read in range is below the
  size, so \<open>i + 1\<close>, ..., \<open>i + 6\<close> cannot wrap before a read has failed.
\<close>

definition read_at :: "byte list \<Rightarrow> nat \<Rightarrow> byte option" where
  "read_at bs i = (if i < length bs then Some (bs ! i) else None)"

text \<open>\<open>static_cast<unsigned long long>(b0) << 16 | static_cast<unsigned long long>(b1) << 8 | b2\<close>\<close>

definition coord :: "byte \<Rightarrow> byte \<Rightarrow> byte \<Rightarrow> ull" where
  "coord b0 b1 b2 = push_bit 16 (ucast b0) OR push_bit 8 (ucast b1) OR ucast b2"

definition group6 :: "byte list \<Rightarrow> nat \<Rightarrow> (ull \<times> ull) option" where
  "group6 bs i =
     do {
       b0 \<leftarrow> read_at bs i;
       b1 \<leftarrow> read_at bs (i + 1);
       b2 \<leftarrow> read_at bs (i + 2);
       b3 \<leftarrow> read_at bs (i + 3);
       b4 \<leftarrow> read_at bs (i + 4);
       b5 \<leftarrow> read_at bs (i + 5);
       Some (coord b0 b1 b2, coord b3 b4 b5)
     }"

definition radiusSquared :: ull where
  "radiusSquared = push_bit 48 1"

definition inside :: "ull \<Rightarrow> ull \<Rightarrow> bool" where
  "inside x y = (x * x + y * y < radiusSquared)"

function pi_loop :: "byte list \<Rightarrow> nat \<Rightarrow> ull \<Rightarrow> ull \<Rightarrow> error + ull \<times> ull" where
  "pi_loop bs i hits tot =
     (if i < usub (length bs) 5 then
        (case group6 bs i of
           None \<Rightarrow> Inl OutOfRange
         | Some (x, y) \<Rightarrow> pi_loop bs (i + 6) (if inside x y then hits + 1 else hits) (tot + 1))
      else Inr (hits, tot))"
  by pat_completeness auto
termination
  by (relation "measure (\<lambda>(bs, i, hits, tot). length bs - i)")
    (auto simp: group6_def read_at_def split: if_splits Option.bind_splits)

declare pi_loop.simps [simp del]

definition calculate_pi :: "ent \<Rightarrow> error + ent" where
  "calculate_pi s =
     (case pi_loop (data s) 0 0 0 of
        Inl e \<Rightarrow> Inl e
      | Inr (hits, tot) \<Rightarrow>
          Inr (s\<lparr>pi_estimate := ddiv (dmul (Finite 4) (of_ull hits)) (of_ull tot)\<rparr>))"

section \<open>Serial correlation\<close>

text \<open>The five sums \<open>sumX, sumY, sumXY, sumX2, sumY2\<close>, in this order.\<close>

type_synonym sum5 = "ull \<times> ull \<times> ull \<times> ull \<times> ull"

definition sums_add :: "sum5 \<Rightarrow> ull \<Rightarrow> ull \<Rightarrow> sum5" where
  "sums_add acc X Y =
     (case acc of (sumX, sumY, sumXY, sumX2, sumY2) \<Rightarrow>
        (sumX + X, sumY + Y, sumXY + X * Y, sumX2 + X * X, sumY2 + Y * Y))"

text \<open>The loop starts at \<open>i = 1\<close>, so \<open>i - 1\<close> does not wrap.\<close>

definition pair_at :: "byte list \<Rightarrow> nat \<Rightarrow> (ull \<times> ull) option" where
  "pair_at bs i =
     do {
       X \<leftarrow> read_at bs (i - 1);
       Y \<leftarrow> read_at bs i;
       Some (ucast X, ucast Y)
     }"

function sc_loop :: "byte list \<Rightarrow> nat \<Rightarrow> sum5 \<Rightarrow> error + sum5" where
  "sc_loop bs i acc =
     (if i < length bs then
        (case pair_at bs i of
           None \<Rightarrow> Inl OutOfRange
         | Some (X, Y) \<Rightarrow> sc_loop bs (i + 1) (sums_add acc X Y))
      else Inr acc)"
  by pat_completeness auto
termination
  by (relation "measure (\<lambda>(bs, i, acc). length bs - i)") auto

declare sc_loop.simps [simp del]

definition correlation :: "double \<Rightarrow> sum5 \<Rightarrow> double" where
  "correlation n acc =
     (case acc of (sumX, sumY, sumXY, sumX2, sumY2) \<Rightarrow>
        ddiv (dsub (dmul n (of_ull sumXY)) (of_ull (sumX * sumY)))
          (dsqrt (dmul (dsub (dmul n (of_ull sumX2)) (of_ull (sumX * sumX)))
                       (dsub (dmul n (of_ull sumY2)) (of_ull (sumY * sumY))))))"

definition calculate_serial_correlation :: "ent \<Rightarrow> error + ent" where
  "calculate_serial_correlation s =
     (case sc_loop (data s) 1 (0, 0, 0, 0, 0) of
        Inl e \<Rightarrow> Inl e
      | Inr acc \<Rightarrow>
          Inr (s\<lparr>serial_correlation := correlation (of_size (usub (length (data s)) 1)) acc\<rparr>))"

text \<open>The test of \<open>print_result\<close> that chooses between the number and "undefined".\<close>

definition prints_number :: "double \<Rightarrow> bool" where
  "prints_number sc = dge sc (Finite (- 99999))"

section \<open>calculate\<close>

text \<open>
  The case fold at the head of \<open>calculate\<close>, when \<open>foldCaseMode\<close> is set:
  \<open>isalpha(c) && isupper(c)\<close> and \<open>tolower(c)\<close> in the "C" locale, the only one the
  program runs in: the upper-case letters are 0x41 to 0x5A, and their lower-case
  letters are 0x20 above.
\<close>

definition fold_byte :: "byte \<Rightarrow> byte" where
  "fold_byte b = (if 0x41 \<le> b \<and> b \<le> 0x5A then b + 0x20 else b)"

definition fold_case :: "ent \<Rightarrow> ent" where
  "fold_case s = (if foldCaseMode s then s\<lparr>data := map fold_byte (data s)\<rparr> else s)"

text \<open>
  The five steps run in the source's order on the object. A step whose behaviour is
  undefined ends the run: the result is then the error together with the object as the
  steps before had left it. The print functions only write to the output stream and
  are left out.
\<close>

definition calculate :: "ent \<Rightarrow> error \<times> ent + ent" where
  "calculate s =
     (let s0 = fold_case s;
          s1 = calculate_entropy s0
      in case calculate_chisquare s1 of
           Inl e \<Rightarrow> Inl (e, s1)
         | Inr s2 \<Rightarrow>
             (let s3 = calculate_mean s2
              in case calculate_pi s3 of
                   Inl e \<Rightarrow> Inl (e, s3)
                 | Inr s4 \<Rightarrow>
                     (case calculate_serial_correlation s4 of
                        Inl e \<Rightarrow> Inl (e, s4)
                      | Inr s5 \<Rightarrow> Inr s5)))"

definition object_of :: "error \<times> ent + ent \<Rightarrow> ent" where
  "object_of r = (case r of Inl (e, s) \<Rightarrow> s | Inr s \<Rightarrow> s)"

section \<open>The measurements in the words of the specification\<close>

text \<open>
  The alphabet has 2 symbols in Bit mode and 256 in Byte mode. In Bit mode the symbols
  of a buffer are its bits, least significant first within each byte; in Byte mode
  they are the byte values.
\<close>

definition alphabet :: "bool \<Rightarrow> nat" where
  "alphabet bit_mode = (if bit_mode then 2 else 256)"

definition bits_lsb_first :: "byte \<Rightarrow> nat list" where
  "bits_lsb_first b = map (\<lambda>k. if bit b k then 1 else 0) [0..<8]"

definition samples :: "bool \<Rightarrow> byte list \<Rightarrow> nat list" where
  "samples bit_mode bs =
     (if bit_mode then concat (map bits_lsb_first bs) else map unat bs)"

definition total_samples :: "bool \<Rightarrow> byte list \<Rightarrow> nat" where
  "total_samples bit_mode bs = (if bit_mode then 8 * length bs else length bs)"

definition occurrences :: "bool \<Rightarrow> byte list \<Rightarrow> nat \<Rightarrow> nat" where
  "occurrences bit_mode bs i = count_list (samples bit_mode bs) i"

text \<open>
  The probability \<open>p_i\<close> of symbol \<open>i\<close> is its number of occurrences divided by the
  number of samples, as a \<open>double\<close>. The entropy is minus the sum, over the symbols
  with \<open>p_i > 0\<close> in increasing order, of \<open>p_i * log2 p_i\<close>, in \<open>double\<close> arithmetic.
\<close>

definition probability :: "bool \<Rightarrow> byte list \<Rightarrow> nat \<Rightarrow> double" where
  "probability bit_mode bs i =
     round_double (real (occurrences bit_mode bs i) / real (total_samples bit_mode bs))"

definition double_sum :: "double list \<Rightarrow> double" where
  "double_sum ts = foldl dadd (Finite 0) ts"

definition shannon :: "bool \<Rightarrow> byte list \<Rightarrow> double" where
  "shannon bit_mode bs =
     dneg (double_sum
       (map (\<lambda>i. dmul (probability bit_mode bs i) (dlog2 (probability bit_mode bs i)))
          (filter (\<lambda>i. dgt (probability bit_mode bs i) (Finite 0)) [0..<alphabet bit_mode])))"

definition max_entropy :: "bool \<Rightarrow> real" where
  "max_entropy bit_mode = (if bit_mode then 1 else 8)"

definition compression_percent :: "bool \<Rightarrow> byte list \<Rightarrow> double" where
  "compression_percent bit_mode bs =
     dmul (Finite 100) (dsub (Finite 1) (ddiv (shannon bit_mode bs) (Finite (max_entropy bit_mode))))"

text \<open>The arithmetic mean of the byte values.\<close>

definition byte_mean :: "byte list \<Rightarrow> real" where
  "byte_mean bs = (\<Sum>b\<leftarrow>bs. real (unat b)) / real (length bs)"

text \<open>
  The 6-byte groups: group \<open>g\<close> starts at byte \<open>6 * g\<close>; its first three bytes pack
  into \<open>x\<close> and its last three into \<open>y\<close>, most significant byte first.
\<close>

definition packed :: "byte list \<Rightarrow> nat \<Rightarrow> nat" where
  "packed bs j =
     push_bit 16 (unat (bs ! j)) OR push_bit 8 (unat (bs ! (j + 1))) OR unat (bs ! (j + 2))"

definition is_hit :: "byte list \<Rightarrow> nat \<Rightarrow> bool" where
  "is_hit bs g = ((packed bs (6 * g))\<^sup>2 + (packed bs (6 * g + 3))\<^sup>2 < 2 ^ 48)"

definition hit_count :: "byte list \<Rightarrow> nat" where
  "hit_count bs = length (filter (is_hit bs) [0..<length bs div 6])"

section \<open>Values that rounding leaves as they are\<close>

lemma round_even_of_int: "round_even (of_int z) = z"
  by (simp add: round_even_def)

lemma round_even_neg: "round_even (- x) = - round_even x"
proof (cases "x = of_int \<lfloor>x\<rfloor>")
  case True
  then obtain z where "x = of_int z" by metis
  then have "- x = of_int (- z)" by simp
  then show ?thesis using \<open>x = of_int z\<close> by (simp only: round_even_of_int)
next
  case False
  then have lt: "of_int \<lfloor>x\<rfloor> < x" using of_int_floor_le[of x] by linarith
  have "x < of_int \<lfloor>x\<rfloor> + 1" by linarith
  have fl: "\<lfloor>- x\<rfloor> = - \<lfloor>x\<rfloor> - 1"
  proof (rule floor_unique)
    have c: "of_int (- \<lfloor>x\<rfloor> - 1) = - of_int \<lfloor>x\<rfloor> - (1::real)" by simp
    show "of_int (- \<lfloor>x\<rfloor> - 1) \<le> - x"
      unfolding c using floor_correct[of x] by linarith
    show "- x < of_int (- \<lfloor>x\<rfloor> - 1) + 1"
      unfolding c using lt by linarith
  qed
  show ?thesis
    unfolding round_even_def Let_def fl
    using lt \<open>x < of_int \<lfloor>x\<rfloor> + 1\<close> by (auto simp: algebra_simps)
qed

lemma ulp_exponent_neg: "ulp_exponent (- x) = ulp_exponent x"
  by (simp add: ulp_exponent_def)

lemma round_double_neg: "round_double (- x) = dneg (round_double x)"
  by (simp add: round_double_def ulp_exponent_neg round_even_neg Let_def)

lemma round_double_exact:
  assumes x: "x = of_int m * 2 powr of_int k" and m: "m \<noteq> 0" "\<bar>m\<bar> < 2 ^ 53"
    and k: "- 1074 \<le> k" "k \<le> 970"
  shows "round_double x = Finite x"
proof -
  have ax: "\<bar>x\<bar> = of_int \<bar>m\<bar> * 2 powr of_int k" by (simp add: x abs_mult)
  have "1 \<le> \<bar>m\<bar>" using m(1) by simp
  then have m1: "(1::real) \<le> of_int \<bar>m\<bar>" by linarith
  have pos: "0 < \<bar>x\<bar>" using m1 by (simp add: ax)
  have "of_int \<bar>m\<bar> < (2::real) ^ 53" using m(2) by (metis of_int_less_numeral_power_cancel_iff)
  then have "of_int \<bar>m\<bar> * 2 powr of_int k < (2::real) ^ 53 * 2 powr of_int k"
    by (intro mult_strict_right_mono) simp_all
  also have "\<dots> = 2 powr of_int (53 + k)"
    by (simp add: powr_add powr_realpow[symmetric])
  finally have ub: "\<bar>x\<bar> < (2::real) powr of_int (53 + k)" by (simp add: ax)
  define L where "L = \<lfloor>log 2 \<bar>x\<bar>\<rfloor>"
  have "log 2 \<bar>x\<bar> < of_int (53 + k)"
    using ub pos by (simp add: log_less_iff)
  then have "L < 53 + k" unfolding L_def by (simp add: floor_less_iff)
  define e where "e = max L (- 1022) - 52"
  have ek: "e \<le> k" using \<open>L < 53 + k\<close> k(1) by (simp add: e_def)
  have e: "ulp_exponent x = e"
    by (simp add: ulp_exponent_def L_def e_def)
  define j where "j = nat (k - e)"
  have j: "k = e + int j" using ek by (simp add: j_def)
  have p: "(2::real) powr of_int k = 2 powr of_int e * 2 ^ j"
  proof -
    have "(2::real) powr of_int k = 2 powr (of_int e + of_int (int j))" by (simp only: j of_int_add)
    also have "\<dots> = 2 powr of_int e * 2 powr of_int (int j)" by (simp only: powr_add)
    also have "\<dots> = 2 powr of_int e * (2::real) ^ j" by (simp add: powr_realpow)
    finally show ?thesis .
  qed
  have q: "x / 2 powr of_int e = of_int (m * 2 ^ j)"
    by (simp add: x p)
  have y: "of_int (round_even (x / 2 powr of_int e)) * 2 powr of_int e = x"
    by (simp only: q round_even_of_int) (simp add: x p)
  have "(2::real) powr of_int (53 + k) \<le> 2 powr of_int 1024"
    using k(2) by (intro powr_mono) simp_all
  also have "\<dots> = 2 ^ 1024" by (simp add: powr_realpow[symmetric])
  finally have big: "\<not> 2 ^ 1024 \<le> \<bar>x\<bar>" using ub by linarith
  have "x \<noteq> 0" using pos by auto
  then show ?thesis
    by (simp only: round_double_def e Let_def y if_False big)
qed

lemma round_double_0 [simp]: "round_double 0 = Finite 0"
  by (simp add: round_double_def)

lemma round_double_int_pow:
  assumes "\<bar>m\<bar> < 2 ^ 53" and "k \<le> 970"
  shows "round_double (of_int m * 2 ^ k) = Finite (of_int m * 2 ^ k)"
proof (cases "m = 0")
  case True
  then show ?thesis by simp
next
  case False
  have "of_int m * (2::real) ^ k = of_int m * 2 powr of_int (int k)"
    by (simp add: powr_realpow)
  from round_double_exact[OF this False assms(1)] assms(2) show ?thesis by simp
qed

lemma round_double_nat: "n < 2 ^ 53 \<Longrightarrow> round_double (real n) = Finite (real n)"
proof -
  assume "n < 2 ^ 53"
  then have "\<bar>int n\<bar> < 2 ^ 53" by (metis abs_of_nat of_nat_less_numeral_power_cancel_iff)
  from round_double_int_pow[OF this, of 0] show ?thesis by simp
qed

lemma round_double_nat_pow:
  "n < 2 ^ 53 \<Longrightarrow> k \<le> 970 \<Longrightarrow> round_double (real n * 2 ^ k) = Finite (real n * 2 ^ k)"
proof -
  assume "n < 2 ^ 53" "k \<le> 970"
  then have "\<bar>int n\<bar> < 2 ^ 53" by (metis abs_of_nat of_nat_less_numeral_power_cancel_iff)
  from round_double_int_pow[OF this \<open>k \<le> 970\<close>] show ?thesis by simp
qed

lemma round_double_halves:
  "\<bar>m\<bar> < 2 ^ 53 \<Longrightarrow> round_double (of_int m / 2) = Finite (of_int m / 2)"
proof (cases "m = 0")
  case True
  then show ?thesis by simp
next
  case False
  assume a: "\<bar>m\<bar> < 2 ^ 53"
  have "of_int m / (2::real) = of_int m * 2 powr of_int (- 1)"
    by (simp add: powr_minus_divide)
  from round_double_exact[OF this False a] show ?thesis by simp
qed

lemma round_double_values:
  "round_double 1 = Finite 1" "round_double 100 = Finite 100" "round_double (- 1) = Finite (- 1)"
  "round_double (1 / 2) = Finite (1 / 2)" "round_double (7 / 2) = Finite (7 / 2)"
  "round_double 18446744073709551616 = Finite 18446744073709551616"
  using round_double_nat[of 1] round_double_nat[of 100] round_double_int_pow[of "- 1" 0]
    round_double_halves[of 1] round_double_halves[of 7] round_double_nat_pow[of 1 64]
  by simp_all

section \<open>The frequencies that the entropy step counts\<close>

lemma dadd_dneg: "dadd (dneg a) (dneg b) = dneg (dadd a b)"
  by (cases a; cases b) (simp_all add: round_double_neg[symmetric])

lemma neg_sum_fold: "foldl dsub (dneg a) ts = dneg (foldl dadd a ts)"
  by (induction ts arbitrary: a) (simp_all add: dsub_def dadd_dneg)

lemma bitValue_bit: "bitValue byte k = (if bit byte k then 1 else 0)"
  unfolding bitValue_def
  by (simp add: and_one_eq mod_2_eq_odd bit_iff_odd_drop_bit) 

lemma count_up: "c < 2 ^ 53 - 1 \<Longrightarrow> round_double (real c + 1) = Finite (1 + real c)"
  using round_double_nat[of "Suc c"] by (simp add: add.commute)

lemma bump_counts:
  assumes "k < n" and "c k < 2 ^ 53 - 1"
  shows "bump (map (\<lambda>i. Finite (real (c i))) [0..<n]) k
         = map (\<lambda>i. Finite (real ((c(k := Suc (c k))) i))) [0..<n]"
  using assms by (auto simp: bump_def list_eq_iff_nth_eq nth_list_update count_up)

lemma foldl_bump_counts:
  assumes "\<forall>k\<in>set ks. k < n" and "\<forall>i<n. c i + count_list ks i < 2 ^ 53"
  shows "foldl bump (map (\<lambda>i. Finite (real (c i))) [0..<n]) ks
         = map (\<lambda>i. Finite (real (c i + count_list ks i))) [0..<n]"
  using assms
proof (induction ks arbitrary: c)
  case Nil
  then show ?case by simp
next
  case (Cons k ks)
  have k: "k < n" using Cons.prems(1) by simp
  have "c k + count_list (k # ks) k < 2 ^ 53" using Cons.prems(2) k by blast
  then have ck: "c k < 2 ^ 53 - 1" by simp
  have "foldl bump (map (\<lambda>i. Finite (real (c i))) [0..<n]) (k # ks)
        = foldl bump (map (\<lambda>i. Finite (real ((c(k := Suc (c k))) i))) [0..<n]) ks"
    by (simp add: bump_counts[of k n c, OF k ck])
  also have "\<dots> = map (\<lambda>i. Finite (real ((c(k := Suc (c k))) i + count_list ks i))) [0..<n]"
  proof (rule Cons.IH)
    show "\<forall>k\<in>set ks. k < n" using Cons.prems(1) by simp
    show "\<forall>i<n. (c(k := Suc (c k))) i + count_list ks i < 2 ^ 53"
      using Cons.prems(2) by (auto split: if_splits)
  qed
  also have "\<dots> = map (\<lambda>i. Finite (real (c i + count_list (k # ks) i))) [0..<n]"
    by simp
  finally show ?case .
qed

lemma byte_value_less: "unat (b :: byte) < 256"
  using unsigned_less[of b, where 'a=nat] by simp

lemma samples_in_alphabet: "\<forall>k\<in>set (samples m bs). k < alphabet m"
  by (auto simp: samples_def alphabet_def bits_lsb_first_def byte_value_less)

lemma length_bits: "length (concat (map bits_lsb_first bs)) = 8 * length bs"
  by (induction bs) (simp_all add: bits_lsb_first_def)

lemma length_samples: "length (samples m bs) = total_samples m bs"
  by (simp add: samples_def total_samples_def length_bits)

lemma occurrences_le_total: "occurrences m bs i \<le> total_samples m bs"
  unfolding occurrences_def length_samples[symmetric] by (rule count_le_length)

lemma foldl_bits:
  "foldl (\<lambda>fs byte. foldl (\<lambda>fs b. bump fs (bitValue byte b)) fs [0..<8]) fs bs
   = foldl bump fs (concat (map bits_lsb_first bs))"
proof (induction bs arbitrary: fs)
  case Nil
  then show ?case by simp
next
  case (Cons b bs)
  have "foldl (\<lambda>fs k. bump fs (bitValue b k)) fs [0..<8] = foldl bump fs (bits_lsb_first b)"
    unfolding bits_lsb_first_def by (simp only: foldl_map bitValue_bit)
  then show ?case by (simp add: Cons)
qed

lemma frequencies_counts:
  assumes "total_samples m bs < 2 ^ 53"
  shows "(if m then bit_frequencies bs else byte_frequencies bs)
         = map (\<lambda>i. Finite (real (occurrences m bs i))) [0..<alphabet m]"
proof -
  have "(if m then bit_frequencies bs else byte_frequencies bs)
        = foldl bump (map (\<lambda>i. Finite (real (0::nat))) [0..<alphabet m]) (samples m bs)"
    by (simp add: bit_frequencies_def byte_frequencies_def foldl_bits foldl_map
        map_replicate_const samples_def alphabet_def)
  also have "\<dots> = map (\<lambda>i. Finite (real (0 + count_list (samples m bs) i))) [0..<alphabet m]"
  proof (rule foldl_bump_counts[OF samples_in_alphabet])
    show "\<forall>i<alphabet m. 0 + count_list (samples m bs) i < 2 ^ 53"
    proof (intro allI impI)
      fix i
      have "count_list (samples m bs) i \<le> total_samples m bs"
        using occurrences_le_total[of m bs i] by (simp add: occurrences_def)
      then show "0 + count_list (samples m bs) i < 2 ^ 53" using assms by simp
    qed
  qed
  finally show ?thesis by (simp add: occurrences_def)
qed

lemma entropy_fold_terms:
  assumes "t \<noteq> 0"
  shows "foldl (entropy_step (Finite t)) e (map (\<lambda>i. Finite (c i)) [0..<n])
         = foldl dsub e
             (map (\<lambda>i. dmul (round_double (c i / t)) (dlog2 (round_double (c i / t))))
                (filter (\<lambda>i. dgt (round_double (c i / t)) (Finite 0)) [0..<n]))"
proof (induction n)
  case 0
  then show ?case by simp
next
  case (Suc n)
  have "entropy_step (Finite t) a (Finite (c n)) =
     (if dgt (round_double (c n / t)) (Finite 0)
      then dsub a (dmul (round_double (c n / t)) (dlog2 (round_double (c n / t)))) else a)" for a
    using assms by (simp add: entropy_step_def Let_def)
  then show ?case
    by (simp add: Suc)
qed

lemma total_as_double:
  assumes "total_samples m bs < 2 ^ 53"
  shows "(if m then dmul (Finite 8) (of_size (length bs)) else of_size (length bs))
         = Finite (real (total_samples m bs))"
proof (cases m)
  case True
  then have "length bs < 2 ^ 53" using assms by (simp add: total_samples_def)
  then have "of_size (length bs) = Finite (real (length bs))"
    by (simp add: of_size_def round_double_nat)
  moreover have "round_double (real (8 * length bs)) = Finite (real (8 * length bs))"
    using assms True by (intro round_double_nat) (simp add: total_samples_def)
  ultimately show ?thesis using True by (simp add: total_samples_def)
next
  case False
  then show ?thesis using assms by (simp add: total_samples_def of_size_def round_double_nat)
qed

lemma entropy_sum_shannon:
  assumes "bs \<noteq> []"
  shows "entropy_sum (Finite (real (total_samples m bs)))
           (map (\<lambda>i. Finite (real (occurrences m bs i))) [0..<alphabet m])
         = shannon m bs"
proof -
  have "real (total_samples m bs) \<noteq> 0"
    using assms by (simp add: total_samples_def)
  then show ?thesis
    unfolding entropy_sum_def shannon_def probability_def double_sum_def
    using neg_sum_fold[of "Finite 0"] by (simp add: entropy_fold_terms)
qed

lemma calculate_entropy_shannon:
  assumes "data s \<noteq> []" and "total_samples (streamOfBitsMode s) (data s) < 2 ^ 53"
  shows "calculate_entropy s =
    s\<lparr>entropy := shannon (streamOfBitsMode s) (data s),
      compression := compression_percent (streamOfBitsMode s) (data s)\<rparr>"
proof (cases "streamOfBitsMode s")
  case True
  have "entropy_sum (dmul (Finite 8) (of_size (length (data s)))) (bit_frequencies (data s))
        = shannon True (data s)"
    using entropy_sum_shannon[OF assms(1), of True] frequencies_counts[of True "data s"]
      total_as_double[of True "data s"] assms(2) True
    by simp
  then show ?thesis using True
    by (simp add: calculate_entropy_def compression_of_def compression_percent_def max_entropy_def Let_def)
next
  case False
  have "entropy_sum (of_size (length (data s))) (byte_frequencies (data s))
        = shannon False (data s)"
    using entropy_sum_shannon[OF assms(1), of False] frequencies_counts[of False "data s"]
      total_as_double[of False "data s"] assms(2) False
    by simp
  then show ?thesis using False
    by (simp add: calculate_entropy_def compression_of_def compression_percent_def max_entropy_def Let_def)
qed

section \<open>The coordinates and the loop of the Monte Carlo estimate\<close>

lemma usub_5: "5 \<le> n \<Longrightarrow> n < 2 ^ 64 \<Longrightarrow> usub n 5 = n - 5"
proof -
  assume a: "5 \<le> n" "n < 2 ^ 64"
  have "n + 2 ^ 64 - 5 = (n - 5) + 1 * 2 ^ 64" using a by simp
  then have "(n + 2 ^ 64 - 5) mod 2 ^ 64 = (n - 5) mod 2 ^ 64"
    by (simp only: mod_mult_self1)
  then show ?thesis using a by (simp add: usub_def)
qed

lemma usub_small: "n < 5 \<Longrightarrow> usub n 5 = 2 ^ 64 - 5 + n"
  by (simp add: usub_def)

lemma or_nat_less:
  fixes x y :: nat
  assumes "x < 2 ^ n" "y < 2 ^ n"
  shows "x OR y < 2 ^ n"
proof -
  have "take_bit n (x OR y) = x OR y"
    using assms by (simp add: take_bit_or take_bit_nat_eq_self)
  then show ?thesis
    by (simp only: take_bit_nat_eq_self_iff)
qed

lemma packed3_less:
  fixes a b c :: nat
  assumes "a < 256" "b < 256" "c < 256"
  shows "push_bit 16 a OR push_bit 8 b OR c < 2 ^ 24"
proof -
  have "push_bit 16 a < 2 ^ 24" "push_bit 8 b < 2 ^ 24" "c < 2 ^ 24"
    using assms by (simp_all add: push_bit_eq_mult)
  then show ?thesis
    by (intro or_nat_less)
qed

lemma coord_unat:
  "unat (coord b0 b1 b2) = push_bit 16 (unat b0) OR push_bit 8 (unat b1) OR unat b2"
proof -
  have b: "unat b0 < 256" "unat b1 < 256" "unat b2 < 256"
    by (rule byte_value_less)+
  then have "push_bit 16 (unat b0) < 2 ^ 64" "push_bit 8 (unat b1) < 2 ^ 64" "unat b0 < 2 ^ 64"
      "unat b1 < 2 ^ 64" "unat b2 < 2 ^ 64"
    by (simp_all add: push_bit_eq_mult)
  then show ?thesis
    unfolding coord_def
    by (simp add: unsigned_or_eq unsigned_push_bit_eq unsigned_ucast_eq take_bit_nat_eq_self)
qed

lemma coord_less: "unat (coord b0 b1 b2) < 2 ^ 24"
  unfolding coord_unat by (intro packed3_less byte_value_less)

lemma inside_unat:
  assumes "unat x < 2 ^ 24" "unat y < 2 ^ 24"
  shows "inside x y \<longleftrightarrow> (unat x)\<^sup>2 + (unat y)\<^sup>2 < 2 ^ 48"
proof -
  have xx: "unat x * unat x < 2 ^ 24 * 2 ^ 24"
    using assms(1) by (intro mult_strict_mono) simp_all
  have yy: "unat y * unat y < 2 ^ 24 * 2 ^ 24"
    using assms(2) by (intro mult_strict_mono) simp_all
  have ux: "unat (x * x) = unat x * unat x"
    using xx by (simp add: unat_word_ariths)
  have uy: "unat (y * y) = unat y * unat y"
    using yy by (simp add: unat_word_ariths)
  have "unat (x * x + y * y) = unat x * unat x + unat y * unat y"
    using xx yy by (simp add: unat_word_ariths(1) ux uy)
  moreover have "unat radiusSquared = 2 ^ 48"
    by (simp add: radiusSquared_def)
  ultimately show ?thesis
    by (simp add: inside_def word_less_nat_alt power2_eq_square)
qed

lemma group6_in_range:
  assumes "i + 5 < length bs"
  shows "group6 bs i = Some (coord (bs ! i) (bs ! (i + 1)) (bs ! (i + 2)),
                            coord (bs ! (i + 3)) (bs ! (i + 4)) (bs ! (i + 5)))"
  using assms by (simp add: group6_def read_at_def)

lemma group6_out_of_range:
  assumes "length bs \<le> i + 5"
  shows "group6 bs i = None"
  using assms by (auto simp: group6_def read_at_def split: Option.bind_splits)

lemma inside_coord:
  "inside (coord a b c) (coord d e f) \<longleftrightarrow>
     (push_bit 16 (unat a) OR push_bit 8 (unat b) OR unat c)\<^sup>2
     + (push_bit 16 (unat d) OR push_bit 8 (unat e) OR unat f)\<^sup>2 < 2 ^ 48"
  using inside_unat[OF coord_less coord_less, of a b c d e f]
  by (simp only: coord_unat)

lemma inside_group:
  "inside (coord (bs ! (6 * g)) (bs ! (6 * g + 1)) (bs ! (6 * g + 2)))
          (coord (bs ! (6 * g + 3)) (bs ! (6 * g + 4)) (bs ! (6 * g + 5)))
   \<longleftrightarrow> is_hit bs g"
proof -
  have idx: "6 * g + 3 + 1 = 6 * g + 4" "6 * g + 3 + 2 = 6 * g + 5"
    by simp_all
  show ?thesis
    by (simp only: inside_coord is_hit_def packed_def idx)
qed

lemma pi_loop_groups:
  assumes "5 \<le> length bs" "length bs < 2 ^ 64"
  shows "g \<le> length bs div 6 \<Longrightarrow>
         pi_loop bs (6 * g) hits tot =
           Inr (hits + word_of_nat (length (filter (is_hit bs) [g..<length bs div 6])),
                tot + word_of_nat (length bs div 6 - g))"
proof (induction "length bs div 6 - g" arbitrary: g hits tot)
  case 0
  then have g: "g = length bs div 6" by simp
  then have "\<not> 6 * g < length bs - 5" by auto
  then show ?case
    using assms g by (subst pi_loop.simps) (simp add: usub_5)
next
  case (Suc k)
  then have g: "g < length bs div 6" by simp
  then have lt: "6 * g + 5 < length bs" by auto
  then have cond: "6 * g < usub (length bs) 5"
    using assms by (simp add: usub_5)
  have up: "[g..<length bs div 6] = g # [Suc g..<length bs div 6]"
    using g by (simp add: upt_conv_Cons)
  have ih: "pi_loop bs (6 * Suc g) h t =
           Inr (h + word_of_nat (length (filter (is_hit bs) [Suc g..<length bs div 6])),
                t + word_of_nat (length bs div 6 - Suc g))" for h t
    using Suc g by (intro Suc.hyps(1)) simp_all
  have k: "length bs div 6 - g = Suc (length bs div 6 - Suc g)"
    using g by simp
  show ?case
    apply (subst pi_loop.simps)
    apply (simp only: cond if_True group6_in_range[OF lt] option.case prod.case inside_group)
    using ih[simplified] 
    apply (simp add: up k add.assoc add.commute)
    done
qed

lemma hit_count_le: "hit_count bs \<le> length bs div 6"
  unfolding hit_count_def using length_filter_le[of "is_hit bs" "[0..<length bs div 6]"] by simp

lemma pi_loop_result:
  assumes "5 \<le> length bs" "length bs < 2 ^ 64"
  shows "pi_loop bs 0 0 0 = Inr (word_of_nat (hit_count bs), word_of_nat (length bs div 6))"
  using pi_loop_groups[OF assms, of 0 0 0] by (simp add: hit_count_def)

lemma pi_loop_short:
  assumes "length bs < 5"
  shows "pi_loop bs 0 hits tot = Inl OutOfRange"
  using assms by (subst pi_loop.simps) (simp add: usub_small group6_out_of_range)

section \<open>The counters of the chi-square step\<close>

lemma observe_counts:
  assumes "k < n"
  shows "observe (map c [0..<n]) k =
     (if c k = 2147483647 then Inl SignedOverflow else Inr (map (c(k := c k + 1)) [0..<n]))"
  using assms by (auto simp: observe_def list_eq_iff_nth_eq nth_list_update)

lemma observe_all_counts:
  assumes "\<forall>k\<in>set ks. k < n" and "\<forall>i<n. c i + int (count_list ks i) \<le> 2147483647"
  shows "observe_all (map c [0..<n]) ks = Inr (map (\<lambda>i. c i + int (count_list ks i)) [0..<n])"
  using assms
proof (induction ks arbitrary: c)
  case Nil
  then show ?case by simp
next
  case (Cons k ks)
  have k: "k < n" using Cons.prems(1) by simp
  have "c k + int (count_list (k # ks) k) \<le> 2147483647"
    using Cons.prems(2) k by blast
  then have ne: "c k \<noteq> 2147483647" by simp
  have "observe_all (map (c(k := c k + 1)) [0..<n]) ks
        = Inr (map (\<lambda>i. (c(k := c k + 1)) i + int (count_list ks i)) [0..<n])"
  proof (rule Cons.IH)
    show "\<forall>k\<in>set ks. k < n" using Cons.prems(1) by simp
    show "\<forall>i<n. (c(k := c k + 1)) i + int (count_list ks i) \<le> 2147483647"
      using Cons.prems(2) by (auto split: if_splits)
  qed
  then show ?case
    by (simp add: observe_counts[OF k] ne)
qed

lemma observe_all_overflow:
  assumes "\<forall>k\<in>set ks. k < n" and "\<forall>i<n. c i \<le> 2147483647"
    and "j < n" and "2147483647 < c j + int (count_list ks j)"
  shows "observe_all (map c [0..<n]) ks = Inl SignedOverflow"
  using assms
proof (induction ks arbitrary: c)
  case Nil
  then show ?case by force
next
  case (Cons k ks)
  have k: "k < n" using Cons.prems(1) by simp
  show ?case
  proof (cases "c k = 2147483647")
    case True
    then show ?thesis by (simp add: observe_counts[OF k])
  next
    case False
    have "observe_all (map (c(k := c k + 1)) [0..<n]) ks = Inl SignedOverflow"
    proof (rule Cons.IH)
      show "\<forall>k\<in>set ks. k < n" using Cons.prems(1) by simp
      show "\<forall>i<n. (c(k := c k + 1)) i \<le> 2147483647"
        using Cons.prems(2) False k by (auto simp: order_less_le)
      show "j < n" by fact
      show "2147483647 < (c(k := c k + 1)) j + int (count_list ks j)"
        using Cons.prems(4) by (auto split: if_splits)
    qed
    then show ?thesis
      by (simp add: observe_counts[OF k] False)
  qed
qed

lemma observe_all_append:
  "observe_all obs (xs @ ys) =
     (case observe_all obs xs of Inl e \<Rightarrow> Inl e | Inr obs' \<Rightarrow> observe_all obs' ys)"
  by (induction xs arbitrary: obs) (simp_all split: sum.splits)

lemma map_bitValue: "map (bitValue byte) [0..<8] = bits_lsb_first byte"
proof -
  have "bitValue byte = (\<lambda>k. if bit byte k then 1 else 0)"
    by (rule ext) (rule bitValue_bit)
  then show ?thesis by (simp only: bits_lsb_first_def)
qed

lemma observed_bits_concat:
  "observed_bits obs bs = observe_all obs (concat (map bits_lsb_first bs))"
proof (induction bs arbitrary: obs)
  case Nil
  then show ?case by simp
next
  case (Cons b bs)
  show ?case
    by (simp only: observed_bits.simps map_bitValue list.map concat.simps observe_all_append Cons)
qed

lemma observed_as_samples:
  "(if m then observed_bits obs bs else observed_bytes obs bs) = observe_all obs (samples m bs)"
  by (simp add: observed_bits_concat observed_bytes_def samples_def)

lemma observed_in_range:
  assumes "total_samples m bs \<le> 2147483647"
  shows "observe_all (replicate (alphabet m) 0) (samples m bs)
         = Inr (map (\<lambda>i. int (occurrences m bs i)) [0..<alphabet m])"
proof -
  have "observe_all (map (\<lambda>i. 0) [0..<alphabet m]) (samples m bs)
        = Inr (map (\<lambda>i. 0 + int (count_list (samples m bs) i)) [0..<alphabet m])"
  proof (rule observe_all_counts[OF samples_in_alphabet])
    show "\<forall>i<alphabet m. 0 + int (count_list (samples m bs) i) \<le> 2147483647"
    proof (intro allI impI)
      fix i
      have "count_list (samples m bs) i \<le> 2147483647"
        using assms occurrences_le_total[of m bs i] unfolding occurrences_def by linarith
      then show "0 + int (count_list (samples m bs) i) \<le> 2147483647" by simp
    qed
  qed
  then show ?thesis by (simp add: map_replicate_const occurrences_def)
qed

lemma calculate_chisquare_in_range:
  assumes "total_samples (streamOfBitsMode s) (data s) \<le> 2147483647"
  shows "\<not> isl (calculate_chisquare s)"
proof -
  let ?m = "streamOfBitsMode s"
  have "(if ?m then observed_bits (replicate (alphabet ?m) 0) (data s)
         else observed_bytes (replicate (alphabet ?m) 0) (data s))
        = Inr (map (\<lambda>i. int (occurrences ?m (data s) i)) [0..<alphabet ?m])"
    using observed_in_range[OF assms] by (simp only: observed_as_samples)
  then show ?thesis
    by (cases ?m) (simp_all add: calculate_chisquare_def alphabet_def Let_def)
qed

lemma calculate_chisquare_overflow:
  assumes "j < alphabet (streamOfBitsMode s)"
    and "2147483647 < occurrences (streamOfBitsMode s) (data s) j"
  shows "calculate_chisquare s = Inl SignedOverflow"
proof -
  let ?m = "streamOfBitsMode s"
  have "observe_all (map (\<lambda>i. 0) [0..<alphabet ?m]) (samples ?m (data s)) = Inl SignedOverflow"
  proof (rule observe_all_overflow[OF samples_in_alphabet _ assms(1)])
    show "\<forall>i<alphabet ?m. (0::int) \<le> 2147483647" by simp
    show "2147483647 < 0 + int (count_list (samples ?m (data s)) j)"
      using assms(2) by (simp add: occurrences_def)
  qed
  then have "observe_all (replicate (alphabet ?m) 0) (samples ?m (data s)) = Inl SignedOverflow"
    by (simp add: map_replicate_const)
  then show ?thesis
    using observed_as_samples[of True "replicate 2 0" "data s"]
      observed_as_samples[of False "replicate 256 0" "data s"]
    by (cases ?m) (simp_all add: calculate_chisquare_def alphabet_def Let_def)
qed

lemma sum_indicator: "(\<Sum>i<n. if i = x then 1 else 0) = (if x < (n::nat) then 1 else (0::nat))"
  by (induction n) auto

lemma sum_counts:
  fixes n :: nat
  assumes "\<forall>k\<in>set xs. k < n"
  shows "(\<Sum>i<n. count_list xs i) = length xs"
  using assms
proof (induction xs)
  case Nil
  then show ?case by simp
next
  case (Cons x xs)
  have x: "x < n" using Cons.prems by simp
  have "(\<Sum>i<n. count_list (x # xs) i) = (\<Sum>i<n. count_list xs i + (if i = x then 1 else (0::nat)))"
    by (intro sum.cong) auto
  also have "\<dots> = (\<Sum>i<n. count_list xs i) + (\<Sum>i<n. if i = x then 1 else (0::nat))"
    by (simp add: sum.distrib)
  also have "(\<Sum>i<n. if i = x then 1 else (0::nat)) = 1"
    using x by (simp only: sum_indicator if_True)
  finally show ?case using Cons by simp
qed

lemma total_is_sum: "total_samples m bs = (\<Sum>i<alphabet m. occurrences m bs i)"
  unfolding occurrences_def
  by (simp only: sum_counts[OF samples_in_alphabet] length_samples)

lemma calculate_chisquare_Inr_total:
  assumes "calculate_chisquare s = Inr s'"
  shows "total_samples (streamOfBitsMode s) (data s) < 2 ^ 40"
proof -
  let ?m = "streamOfBitsMode s"
  have le: "occurrences ?m (data s) j \<le> 2147483647" if "j < alphabet ?m" for j
  proof (rule ccontr)
    assume "\<not> occurrences ?m (data s) j \<le> 2147483647"
    then have "2147483647 < occurrences ?m (data s) j" by simp
    from calculate_chisquare_overflow[OF that this] assms show False by simp
  qed
  have "(\<Sum>i<alphabet ?m. occurrences ?m (data s) i) \<le> (\<Sum>i<alphabet ?m. 2147483647)"
    by (intro sum_mono) (simp add: le)
  also have "\<dots> = alphabet ?m * 2147483647" by simp
  also have "\<dots> \<le> 256 * 2147483647" by (simp add: alphabet_def)
  finally show ?thesis by (simp add: total_is_sum)
qed

section \<open>The sums of the serial correlation\<close>

lemma pair_at_in_range:
  assumes "i < length bs"
  shows "pair_at bs i = Some (ucast (bs ! (i - 1)), ucast (bs ! i))"
  using assms by (simp add: pair_at_def read_at_def)

lemma sc_loop_fold:
  "sc_loop bs i acc =
     Inr (foldl (\<lambda>a j. sums_add a (ucast (bs ! (j - 1))) (ucast (bs ! j))) acc [i..<length bs])"
proof (induction "length bs - i" arbitrary: i acc)
  case 0
  then show ?case by (subst sc_loop.simps) simp
next
  case (Suc k)
  then have lt: "i < length bs" by simp
  have "k = length bs - Suc i" using Suc.hyps(2) by simp
  note ih = Suc.hyps(1)[OF this]
  show ?case
    by (subst sc_loop.simps) (simp add: lt pair_at_in_range ih upt_conv_Cons)
qed

lemma foldl_sums_add_const:
  "foldl (\<lambda>a j. sums_add a X Y) (a, b, c, d, e) js =
     (a + word_of_nat (length js) * X, b + word_of_nat (length js) * Y,
      c + word_of_nat (length js) * (X * Y), d + word_of_nat (length js) * (X * X),
      e + word_of_nat (length js) * (Y * Y))"
  by (induction js arbitrary: a b c d e) (simp_all add: sums_add_def algebra_simps)

lemma sc_loop_replicate:
  "sc_loop (replicate N v) 1 (0, 0, 0, 0, 0) =
     Inr (word_of_nat (N - 1) * ucast v, word_of_nat (N - 1) * ucast v,
          word_of_nat (N - 1) * (ucast v * ucast v), word_of_nat (N - 1) * (ucast v * ucast v),
          word_of_nat (N - 1) * (ucast v * ucast v))"
proof -
  have "foldl (\<lambda>a j. sums_add a (ucast (replicate N v ! (j - 1))) (ucast (replicate N v ! j)))
          acc [1..<N]
        = foldl (\<lambda>a j. sums_add a (ucast v) (ucast v)) acc [1..<N]" for acc
    by (rule foldl_cong) auto
  then show ?thesis
    by (simp add: sc_loop_fold foldl_sums_add_const)
qed

lemma data_Ent: "data (Ent bs) = bs"
  by (simp add: Ent_def)

lemma usub_1: "1 \<le> n \<Longrightarrow> n < 2 ^ 64 \<Longrightarrow> usub n 1 = n - 1"
proof -
  assume a: "1 \<le> n" "n < 2 ^ 64"
  have "n + 2 ^ 64 - 1 = (n - 1) + 1 * 2 ^ 64" using a by simp
  then have "(n + 2 ^ 64 - 1) mod 2 ^ 64 = (n - 1) mod 2 ^ 64"
    by (simp only: mod_mult_self1)
  then show ?thesis using a by (simp add: usub_def)
qed

lemma serial_correlation_replicate:
  fixes v :: byte
  assumes "data s = replicate N v"
  shows "calculate_serial_correlation s =
     Inr (s\<lparr>serial_correlation :=
            correlation (of_size (usub N 1))
              (word_of_nat (N - 1) * ucast v, word_of_nat (N - 1) * ucast v,
               word_of_nat (N - 1) * (ucast v * ucast v),
               word_of_nat (N - 1) * (ucast v * ucast v),
               word_of_nat (N - 1) * (ucast v * ucast v))\<rparr>)"
  by (simp only: calculate_serial_correlation_def assms sc_loop_replicate sum.case length_replicate)

lemma unat_ucast_byte: "unat (ucast (v :: byte) :: ull) = unat v"
  using byte_value_less[of v] by (simp add: unsigned_ucast_eq take_bit_nat_eq_self)

section \<open>The fields that each step writes\<close>

lemma calculate_entropy_frame:
  "\<exists>e k. calculate_entropy s = s\<lparr>entropy := e, compression := k\<rparr>"
  by (cases "streamOfBitsMode s") (auto simp: calculate_entropy_def Let_def)

lemma calculate_chisquare_frame:
  "calculate_chisquare s = Inr s' \<Longrightarrow> \<exists>c p. s' = s\<lparr>chisquare := c, p_value := p\<rparr>"
  by (auto simp: calculate_chisquare_def Let_def split: if_splits sum.splits)

lemma calculate_pi_frame:
  "calculate_pi s = Inr s' \<Longrightarrow> \<exists>v. s' = s\<lparr>pi_estimate := v\<rparr>"
  by (auto simp: calculate_pi_def split: sum.splits prod.splits)

lemma calculate_serial_correlation_frame:
  "calculate_serial_correlation s = Inr s' \<Longrightarrow> \<exists>v. s' = s\<lparr>serial_correlation := v\<rparr>"
  by (auto simp: calculate_serial_correlation_def split: sum.splits)

lemma calculate_keeps_entropy:
  "\<exists>c p m v w. object_of (calculate s) =
     (calculate_entropy (fold_case s))\<lparr>chisquare := c, p_value := p, mean := m, pi_estimate := v, serial_correlation := w\<rparr>"
proof -
  let ?s1 = "calculate_entropy (fold_case s)"
  have triv: "?s1 = ?s1\<lparr>chisquare := chisquare ?s1, p_value := p_value ?s1, mean := mean ?s1, pi_estimate := pi_estimate ?s1, serial_correlation := serial_correlation ?s1\<rparr>"
    by simp
  show ?thesis
  proof (cases "calculate_chisquare ?s1")
    case (Inl e)
    then have "object_of (calculate s) = ?s1"
      by (simp add: calculate_def object_of_def Let_def)
    then show ?thesis using triv by metis
  next
    case (Inr s2)
    then obtain c p where s2: "s2 = ?s1\<lparr>chisquare := c, p_value := p\<rparr>"
      using calculate_chisquare_frame by blast
    let ?s3 = "calculate_mean s2"
    have s3: "?s3 = ?s1\<lparr>chisquare := c, p_value := p, mean := mean ?s3\<rparr>"
      by (simp add: calculate_mean_def s2)
    show ?thesis
    proof (cases "calculate_pi ?s3")
      case (Inl e)
      then have "object_of (calculate s) = ?s3"
        using Inr by (simp add: calculate_def object_of_def Let_def)
      then have "object_of (calculate s) = ?s1\<lparr>chisquare := c, p_value := p, mean := mean ?s3, pi_estimate := pi_estimate ?s1, serial_correlation := serial_correlation ?s1\<rparr>"
        using s3 by (simp add: calculate_mean_def s2)
      then show ?thesis by blast
    next
      case s4: (Inr s4)
      then obtain v where s4': "s4 = ?s3\<lparr>pi_estimate := v\<rparr>"
        using calculate_pi_frame by blast
      show ?thesis
      proof (cases "calculate_serial_correlation s4")
        case (Inl e)
        then have "object_of (calculate s) = s4"
          using Inr s4 by (simp add: calculate_def object_of_def Let_def)
        then have "object_of (calculate s) = ?s1\<lparr>chisquare := c, p_value := p, mean := mean ?s3, pi_estimate := v, serial_correlation := serial_correlation ?s1\<rparr>"
          using s3 s4' by (simp add: calculate_mean_def s2)
        then show ?thesis by blast
      next
        case s5: (Inr s5)
        then obtain w where "s5 = s4\<lparr>serial_correlation := w\<rparr>"
          using calculate_serial_correlation_frame by blast
        moreover have "object_of (calculate s) = s5"
          using Inr s4 s5 by (simp add: calculate_def object_of_def Let_def)
        ultimately have "object_of (calculate s) = ?s1\<lparr>chisquare := c, p_value := p, mean := mean ?s3, pi_estimate := v, serial_correlation := w\<rparr>"
          using s3 s4' by (simp add: calculate_mean_def s2)
        then show ?thesis by blast
      qed
    qed
  qed
qed

lemma fold_byte_idem: "fold_byte (fold_byte b) = fold_byte b"
  unfolding fold_byte_def by (simp add: word_le_nat_alt unat_word_ariths)

lemma fold_case_fix:
  assumes "data t = data (fold_case s)" and "foldCaseMode t = foldCaseMode s"
  shows "fold_case t = t"
  using assms by (simp add: fold_case_def fold_byte_idem split: if_splits)

lemma fold_case_fields:
  "length (data (fold_case s)) = length (data s)"
  "streamOfBitsMode (fold_case s) = streamOfBitsMode s"
  "foldCaseMode (fold_case s) = foldCaseMode s"
  "data (fold_case s) = (if foldCaseMode s then map fold_byte (data s) else data s)"
  by (simp_all add: fold_case_def)

lemma total_samples_length: "total_samples m (data (fold_case s)) = total_samples m (data s)"
  by (simp add: total_samples_def fold_case_fields)

lemma calculate_serial_correlation_result:
  "calculate_serial_correlation s =
     Inr (s\<lparr>serial_correlation :=
            correlation (of_size (usub (length (data s)) 1))
              (projr (sc_loop (data s) 1 (0, 0, 0, 0, 0)))\<rparr>)"
  by (simp add: calculate_serial_correlation_def sc_loop_fold)

lemma calculate_entropy_fix:
  assumes "data t = data u" and "streamOfBitsMode t = streamOfBitsMode u"
    and "entropy t = entropy (calculate_entropy u)"
    and "compression t = compression (calculate_entropy u)"
  shows "calculate_entropy t = t"
  using assms by (simp add: calculate_entropy_def Let_def split: if_splits)

lemma calculate_chisquare_fail:
  assumes "data t = data u" and "streamOfBitsMode t = streamOfBitsMode u"
    and "calculate_chisquare u = Inl e"
  shows "calculate_chisquare t = Inl e"
  using assms by (simp add: calculate_chisquare_def Let_def split: if_splits sum.splits)

lemma calculate_chisquare_fix:
  assumes "data t = data u" and "streamOfBitsMode t = streamOfBitsMode u"
    and "calculate_chisquare u = Inr u'"
    and "chisquare t = chisquare u'" and "p_value t = p_value u'"
  shows "calculate_chisquare t = Inr t"
  using assms by (auto simp: calculate_chisquare_def Let_def split: if_splits sum.splits)

lemma calculate_mean_fix:
  assumes "data t = data u" and "mean t = mean (calculate_mean u)"
  shows "calculate_mean t = t"
  using assms by (simp add: calculate_mean_def)

lemma calculate_pi_fail:
  assumes "data t = data u" and "calculate_pi u = Inl e"
  shows "calculate_pi t = Inl e"
  using assms by (simp add: calculate_pi_def split: sum.splits prod.splits)

lemma calculate_pi_fix:
  assumes "data t = data u" and "calculate_pi u = Inr u'" and "pi_estimate t = pi_estimate u'"
  shows "calculate_pi t = Inr t"
  using assms by (auto simp: calculate_pi_def split: sum.splits prod.splits)

lemma calculate_serial_correlation_fix:
  assumes "data t = data u" and "calculate_serial_correlation u = Inr u'"
    and "serial_correlation t = serial_correlation u'"
  shows "calculate_serial_correlation t = Inr t"
  using assms by (auto simp: calculate_serial_correlation_result)

lemma calculate_again: "calculate (object_of (calculate s)) = calculate s"
proof -
  let ?s0 = "fold_case s"
  let ?s1 = "calculate_entropy ?s0"
  obtain e k where s1: "?s1 = ?s0\<lparr>entropy := e, compression := k\<rparr>"
    using calculate_entropy_frame by blast
  have f0: "foldCaseMode ?s0 = foldCaseMode s"
    by (simp add: fold_case_def)
  show ?thesis
  proof (cases "calculate_chisquare ?s1")
    case (Inl err)
    then have c: "calculate s = Inl (err, ?s1)"
      by (simp add: calculate_def Let_def)
    have 1: "fold_case ?s1 = ?s1"
      by (rule fold_case_fix[of _ s]) (simp_all add: s1 f0)
    have 2: "calculate_entropy ?s1 = ?s1"
      by (rule calculate_entropy_fix[of _ ?s0]) (simp_all add: s1)
    show ?thesis
      by (simp add: c object_of_def) (simp add: calculate_def 1 2 Inl)
  next
    case (Inr s2)
    then obtain c p where s2: "s2 = ?s1\<lparr>chisquare := c, p_value := p\<rparr>"
      using calculate_chisquare_frame by blast
    let ?s3 = "calculate_mean s2"
    have s3: "?s3 = s2\<lparr>mean := mean ?s3\<rparr>"
      by (simp add: calculate_mean_def)
    show ?thesis
    proof (cases "calculate_pi ?s3")
      case (Inl err)
      then have c: "calculate s = Inl (err, ?s3)"
        using Inr by (simp add: calculate_def Let_def)
      have 1: "fold_case ?s3 = ?s3"
        by (rule fold_case_fix[of _ s]) (simp_all add: calculate_mean_def s2 s1 f0)
      have 2: "calculate_entropy ?s3 = ?s3"
        by (rule calculate_entropy_fix[of _ ?s0]) (simp_all add: calculate_mean_def s2, simp_all add: s1)
      have 3: "calculate_chisquare ?s3 = Inr ?s3"
        by (rule calculate_chisquare_fix[of _ ?s1, OF _ _ Inr]) (simp_all add: calculate_mean_def s2)
      have 4: "calculate_mean ?s3 = ?s3"
        by (rule calculate_mean_fix[of _ s2]) (simp_all add: calculate_mean_def)
      show ?thesis
        by (simp add: c object_of_def) (simp add: calculate_def 1 2 3 4 Inl)
    next
      case s4: (Inr s4)
      then obtain v where s4': "s4 = ?s3\<lparr>pi_estimate := v\<rparr>"
        using calculate_pi_frame by blast
      obtain s5 where s5: "calculate_serial_correlation s4 = Inr s5"
        by (simp add: calculate_serial_correlation_result)
      then obtain w where s5': "s5 = s4\<lparr>serial_correlation := w\<rparr>"
        using calculate_serial_correlation_frame by blast
      have c: "calculate s = Inr s5"
        using Inr s4 s5 by (simp add: calculate_def Let_def)
      have 1: "fold_case s5 = s5"
        by (rule fold_case_fix[of _ s]) (simp_all add: s5' s4' calculate_mean_def s2 s1 f0)
      have 2: "calculate_entropy s5 = s5"
        by (rule calculate_entropy_fix[of _ ?s0]) (simp_all add: s5' s4' calculate_mean_def s2, simp_all add: s1)
      have 3: "calculate_chisquare s5 = Inr s5"
        by (rule calculate_chisquare_fix[of _ ?s1, OF _ _ Inr]) (simp_all add: s5' s4' calculate_mean_def s2)
      have 4: "calculate_mean s5 = s5"
        by (rule calculate_mean_fix[of _ s2]) (simp_all add: s5' s4' calculate_mean_def)
      have 5: "calculate_pi s5 = Inr s5"
        by (rule calculate_pi_fix[of _ ?s3, OF _ s4]) (simp_all add: s5' s4' calculate_mean_def)
      have 6: "calculate_serial_correlation s5 = Inr s5"
        by (rule calculate_serial_correlation_fix[of _ s4, OF _ s5]) (simp_all add: s5')
      show ?thesis
        by (simp add: c object_of_def) (simp add: calculate_def 1 2 3 4 5 6)
    qed
  qed
qed

lemma calculate_data: "data (object_of (calculate s)) = data (fold_case s)"
proof -
  obtain c p m v w where "object_of (calculate s) =
     (calculate_entropy (fold_case s))\<lparr>chisquare := c, p_value := p, mean := m,
        pi_estimate := v, serial_correlation := w\<rparr>"
    using calculate_keeps_entropy by blast
  moreover obtain e k where "calculate_entropy (fold_case s) = (fold_case s)\<lparr>entropy := e, compression := k\<rparr>"
    using calculate_entropy_frame by blast
  ultimately show ?thesis by simp
qed

section \<open>A run of calculate that returns\<close>

lemma calculate_Inr_steps:
  assumes "calculate s = Inr r"
  obtains s2 s4 where "calculate_chisquare (calculate_entropy (fold_case s)) = Inr s2"
    and "calculate_pi (calculate_mean s2) = Inr s4"
    and "calculate_serial_correlation s4 = Inr r"
proof -
  let ?s1 = "calculate_entropy (fold_case s)"
  obtain s2 where s2: "calculate_chisquare ?s1 = Inr s2"
    using assms by (cases "calculate_chisquare ?s1") (simp_all add: calculate_def Let_def)
  obtain s4 where s4: "calculate_pi (calculate_mean s2) = Inr s4"
    using assms s2 by (cases "calculate_pi (calculate_mean s2)") (simp_all add: calculate_def Let_def)
  have "calculate_serial_correlation s4 = Inr r"
    using assms s2 s4 by (simp add: calculate_def Let_def split: sum.splits)
  with s2 s4 show ?thesis by (rule that)
qed

lemma calculate_pi_short:
  assumes "length (data s) < 5"
  shows "calculate_pi s = Inl OutOfRange"
  using assms by (simp add: calculate_pi_def pi_loop_short)

lemma calculate_pi_returns:
  assumes "5 \<le> length (data s)" and "length (data s) < 2 ^ 64"
  shows "calculate_pi s =
     Inr (s\<lparr>pi_estimate :=
            ddiv (dmul (Finite 4) (of_ull (word_of_nat (hit_count (data s)))))
                 (of_ull (word_of_nat (length (data s) div 6)))\<rparr>)"
  by (simp add: calculate_pi_def pi_loop_result[OF assms])

text \<open>The bounds that a returning run implies, and the fields it leaves.\<close>

lemma calculate_Inr_fields:
  assumes "calculate s = Inr r"
  shows "data r = data (fold_case s)"
    and "streamOfBitsMode r = streamOfBitsMode s"
    and "total_samples (streamOfBitsMode s) (data (fold_case s)) < 2 ^ 40"
    and "5 \<le> length (data (fold_case s))"
    and "entropy r = entropy (calculate_entropy (fold_case s))"
    and "compression r = compression (calculate_entropy (fold_case s))"
    and "mean r = mean (calculate_mean (fold_case s))"
    and "calculate_pi (fold_case s) = Inr ((fold_case s)\<lparr>pi_estimate := pi_estimate r\<rparr>)"
    and "calculate_serial_correlation (fold_case s)
           = Inr ((fold_case s)\<lparr>serial_correlation := serial_correlation r\<rparr>)"
proof -
  let ?t = "fold_case s"
  let ?s1 = "calculate_entropy ?t"
  obtain s2 s4 where s2: "calculate_chisquare ?s1 = Inr s2"
    and s4: "calculate_pi (calculate_mean s2) = Inr s4"
    and r: "calculate_serial_correlation s4 = Inr r"
    using assms by (rule calculate_Inr_steps)
  obtain e k where s1: "?s1 = ?t\<lparr>entropy := e, compression := k\<rparr>"
    using calculate_entropy_frame by blast
  obtain c p where s2': "s2 = ?s1\<lparr>chisquare := c, p_value := p\<rparr>"
    using s2 calculate_chisquare_frame by blast
  obtain v where s4': "s4 = (calculate_mean s2)\<lparr>pi_estimate := v\<rparr>"
    using s4 calculate_pi_frame by blast
  obtain w where r': "r = s4\<lparr>serial_correlation := w\<rparr>"
    using r calculate_serial_correlation_frame by blast
  have fields: "r = ?t\<lparr>entropy := e, compression := k, chisquare := c, p_value := p,
      mean := mean (calculate_mean s2), pi_estimate := v, serial_correlation := w\<rparr>"
    by (simp add: r' s4' s2' s1 calculate_mean_def)
  show "data r = data ?t" by (simp add: fields)
  show "streamOfBitsMode r = streamOfBitsMode s" by (simp add: fields fold_case_fields)
  have "total_samples (streamOfBitsMode ?s1) (data ?s1) < 2 ^ 40"
    using s2 by (rule calculate_chisquare_Inr_total)
  then show "total_samples (streamOfBitsMode s) (data ?t) < 2 ^ 40"
    by (simp add: s1 fold_case_fields)
  show "5 \<le> length (data ?t)"
  proof (rule ccontr)
    assume "\<not> 5 \<le> length (data ?t)"
    then have "length (data (calculate_mean s2)) < 5"
      by (simp add: calculate_mean_def s2' s1)
    from calculate_pi_short[OF this] s4 show False by simp
  qed
  show "entropy r = entropy ?s1" by (simp add: fields s1)
  show "compression r = compression ?s1" by (simp add: fields s1)
  show "mean r = mean (calculate_mean ?t)"
    by (simp add: fields) (simp add: calculate_mean_def s2' s1)
  have "calculate_pi ?t = Inr (?t\<lparr>pi_estimate := pi_estimate s4\<rparr>)"
    using s4 by (auto simp: calculate_pi_def calculate_mean_def s2' s1 split: sum.splits prod.splits)
  then show "calculate_pi ?t = Inr (?t\<lparr>pi_estimate := pi_estimate r\<rparr>)"
    by (simp add: r')
  have d4: "data s4 = data ?t"
    by (simp add: s4' calculate_mean_def s2' s1)
  have "r = s4\<lparr>serial_correlation := correlation (of_size (usub (length (data s4)) 1))
              (projr (sc_loop (data s4) 1 (0, 0, 0, 0, 0)))\<rparr>"
    using r by (simp only: calculate_serial_correlation_result sum.inject)
  then have "serial_correlation r = correlation (of_size (usub (length (data ?t)) 1))
              (projr (sc_loop (data ?t) 1 (0, 0, 0, 0, 0)))"
    by (simp add: d4)
  then have "calculate_serial_correlation ?t = Inr (?t\<lparr>serial_correlation := serial_correlation r\<rparr>)"
    by (simp only: calculate_serial_correlation_result)
  then show "calculate_serial_correlation ?t
           = Inr (?t\<lparr>serial_correlation := serial_correlation r\<rparr>)" .
qed

lemma calculate_returns:
  assumes "5 \<le> length (data s)"
    and "total_samples (streamOfBitsMode s) (data s) \<le> 2147483647"
  shows "\<not> isl (calculate s)"
proof -
  let ?t = "fold_case s"
  let ?s1 = "calculate_entropy ?t"
  obtain e k where s1: "?s1 = ?t\<lparr>entropy := e, compression := k\<rparr>"
    using calculate_entropy_frame by blast
  have "total_samples (streamOfBitsMode ?s1) (data ?s1) \<le> 2147483647"
    using assms(2) by (simp add: s1 fold_case_fields(2) total_samples_length)
  then have "\<not> isl (calculate_chisquare ?s1)" by (rule calculate_chisquare_in_range)
  then obtain s2 where s2: "calculate_chisquare ?s1 = Inr s2"
    by (cases "calculate_chisquare ?s1") simp_all
  then obtain c p where s2': "s2 = ?s1\<lparr>chisquare := c, p_value := p\<rparr>"
    using calculate_chisquare_frame by blast
  have "length (data s) \<le> total_samples (streamOfBitsMode s) (data s)"
    by (simp add: total_samples_def)
  then have lt: "length (data s) < 2 ^ 64" using assms(2) by simp
  have "5 \<le> length (data (calculate_mean s2))" "length (data (calculate_mean s2)) < 2 ^ 64"
    using assms(1) lt by (simp_all add: calculate_mean_def s2' s1 fold_case_fields)
  from calculate_pi_returns[OF this] obtain s4 where s4: "calculate_pi (calculate_mean s2) = Inr s4"
    by blast
  obtain s5 where s5: "calculate_serial_correlation s4 = Inr s5"
    by (simp add: calculate_serial_correlation_result)
  show ?thesis
    by (simp add: calculate_def Let_def s2 s4 s5)
qed

lemma calculate_short:
  assumes "data s \<noteq> []" and "length (data s) < 5"
  shows "isl (calculate s) \<and> fst (projl (calculate s)) = OutOfRange"
proof -
  let ?t = "fold_case s"
  let ?s1 = "calculate_entropy ?t"
  obtain e k where s1: "?s1 = ?t\<lparr>entropy := e, compression := k\<rparr>"
    using calculate_entropy_frame by blast
  have "total_samples (streamOfBitsMode s) (data s) \<le> 8 * length (data s)"
    by (simp add: total_samples_def)
  then have "total_samples (streamOfBitsMode ?s1) (data ?s1) \<le> 2147483647"
    using assms(2) by (simp add: s1 fold_case_fields(2) total_samples_length)
  then have "\<not> isl (calculate_chisquare ?s1)" by (rule calculate_chisquare_in_range)
  then obtain s2 where s2: "calculate_chisquare ?s1 = Inr s2"
    by (cases "calculate_chisquare ?s1") simp_all
  then obtain c p where s2': "s2 = ?s1\<lparr>chisquare := c, p_value := p\<rparr>"
    using calculate_chisquare_frame by blast
  have "length (data (calculate_mean s2)) < 5"
    using assms(2) by (simp add: calculate_mean_def s2' s1 fold_case_fields)
  then have 3: "calculate_pi (calculate_mean s2) = Inl OutOfRange"
    by (rule calculate_pi_short)
  show ?thesis
    by (simp add: calculate_def Let_def s2 3)
qed

section \<open>Chi-square on large inputs\<close>

lemma count_constant: "count_list (map (\<lambda>k. c) xs) c = length xs"
  by (induction xs) simp_all

lemma count_zero_bits: "count_list (concat (map bits_lsb_first (replicate N 0))) 0 = 8 * N"
  by (induction N) (simp_all add: bits_lsb_first_def count_constant)

text \<open>
  C2 fails on large inputs: in Bit mode, \<open>2^28\<close> zero bytes hold \<open>2^31\<close> zero bits,
  and the \<open>int\<close> counter \<open>observed[0]\<close> is incremented past \<open>INT_MAX\<close>.
\<close>

theorem chisquare_counter_overflow:
  "calculate_chisquare (setStreamOfBitsMode True (Ent (replicate 268435456 0)))
   = Inl SignedOverflow"
proof -
  let ?s = "setStreamOfBitsMode True (Ent (replicate 268435456 0))"
  have m: "streamOfBitsMode ?s = True" and d: "data ?s = replicate 268435456 0"
    by (simp_all only: setStreamOfBitsMode_def Ent_def ent.simps)
  have "occurrences True (replicate 268435456 0) 0 = 8 * 268435456"
    by (simp only: occurrences_def samples_def if_True count_zero_bits)
  then have "2147483647 < occurrences (streamOfBitsMode ?s) (data ?s) 0"
    by (simp only: m d)
  moreover have "0 < alphabet (streamOfBitsMode ?s)"
    by (simp add: alphabet_def)
  ultimately show ?thesis
    by (rule calculate_chisquare_overflow[rotated])
qed

section \<open>The empty buffer\<close>

lemma entropy_fold_empty:
  "foldl (entropy_step (Finite 0)) e (replicate n (Finite 0)) = e"
  by (induction n) (simp_all add: entropy_step_def dgt_def signed_inf_def)

lemma chisquare_fold_NaN:
  "foldl (chisquare_step (Finite 0)) NaN (replicate n 0) = NaN"
  by (induction n) (simp_all add: chisquare_step_def Let_def)

lemma chisquare_fold_empty:
  "0 < n \<Longrightarrow> foldl (chisquare_step (Finite 0)) (Finite 0) (replicate n 0) = NaN"
  by (cases n) (simp_all add: chisquare_fold_NaN,
      simp add: chisquare_step_def of_c_int_def dsub_def signed_inf_def chisquare_fold_NaN)

lemma p_value_NaN: "p_value_of NaN df = NaN"
  by (simp add: p_value_of_def dsub_def norm_cdf_def)

lemma empty_entropy:
  assumes "data s = []"
  shows "calculate_entropy s = s\<lparr>entropy := Finite 0, compression := Finite 100\<rparr>"
  using assms
  by (simp add: calculate_entropy_def bit_frequencies_def byte_frequencies_def entropy_sum_def
      of_size_def entropy_fold_empty compression_of_def dsub_def Let_def round_double_values)

lemma empty_chisquare:
  assumes "data s = []"
  shows "calculate_chisquare s = Inr (s\<lparr>chisquare := NaN, p_value := NaN\<rparr>)"
  using assms
  by (simp add: calculate_chisquare_def observed_bytes_def of_size_def chisquare_sum_def
      chisquare_fold_empty p_value_NaN Let_def)

lemma empty_mean:
  assumes "data s = []"
  shows "calculate_mean s = s\<lparr>mean := NaN\<rparr>"
  using assms by (simp add: calculate_mean_def accumulate_def of_size_def signed_inf_def)

text \<open>
  C4, as the code has it. On the empty buffer \<open>calculate\<close> makes no check: its
  entropy step stores entropy 0.0 and compression 100.0, its chi-square step stores
  NaN as the statistic and as the p-value, and its mean step stores NaN, each without
  an error.
\<close>

theorem empty_buffer_steps:
  assumes "data s = []"
  shows "calculate_entropy s = s\<lparr>entropy := Finite 0, compression := Finite 100\<rparr>
         \<and> calculate_chisquare s = Inr (s\<lparr>chisquare := NaN, p_value := NaN\<rparr>)
         \<and> calculate_mean s = s\<lparr>mean := NaN\<rparr>"
  using assms by (simp only: empty_entropy empty_chisquare empty_mean simp_thms)

theorem empty_buffer_steps_witness:
  "data (Ent []) = []
   \<and> calculate_chisquare (Ent []) = Inr ((Ent [])\<lparr>chisquare := NaN, p_value := NaN\<rparr>)
   \<and> calculate_mean (setStreamOfBitsMode True (Ent []))
       = (setStreamOfBitsMode True (Ent []))\<lparr>mean := NaN\<rparr>"
  using empty_buffer_steps[of "Ent []"] empty_buffer_steps[of "setStreamOfBitsMode True (Ent [])"]
  by (simp add: data_Ent setStreamOfBitsMode_def)

text \<open>
  C4 as stated fails: on the empty buffer the run gets as far as the loop of
  \<open>calculate_pi\<close>, with NaN stored as chi-square, p-value and mean.
\<close>

theorem empty_buffer_calculate:
  "calculate (Ent []) =
     Inl (OutOfRange,
          (Ent [])\<lparr>entropy := Finite 0, compression := Finite 100, chisquare := NaN,
                   p_value := NaN, mean := NaN\<rparr>)"
proof -
  have f: "fold_case (Ent []) = Ent []"
    by (simp add: fold_case_def Ent_def)
  have pi: "calculate_pi t = Inl OutOfRange" if "data t = []" for t
    using that by (simp add: calculate_pi_short)
  show ?thesis
    by (simp add: calculate_def f empty_entropy empty_chisquare empty_mean pi data_Ent)
qed

section \<open>Fewer than five bytes\<close>

text \<open>
  C10 fails for 1 to 4 bytes: \<open>data.size() - 5\<close> wraps to a value near \<open>2^64\<close>, the
  loop is entered at \<open>i = 0\<close>, and it reads \<open>data[1]\<close> to \<open>data[5]\<close> beyond the end.
\<close>

theorem pi_reads_out_of_range:
  "calculate_pi (Ent [0x00]) = Inl OutOfRange
   \<and> isl (calculate (Ent [0x00])) \<and> fst (projl (calculate (Ent [0x00]))) = OutOfRange"
proof -
  have "calculate_pi (Ent [0x00]) = Inl OutOfRange"
    by (simp add: calculate_pi_short data_Ent)
  moreover have "data (Ent [0x00]) \<noteq> []" "length (data (Ent [0x00])) < 5"
    by (simp_all add: data_Ent)
  note calculate_short[OF this]
  ultimately show ?thesis by blast
qed

section \<open>The buffer after calculate\<close>

text \<open>
  C7, as the code has it. With \<open>foldCaseMode\<close> off \<open>calculate\<close> leaves the buffer
  as it was; with \<open>foldCaseMode\<close> on it overwrites, in place, each upper-case ASCII
  letter by its lower-case letter and leaves every other byte as it was. The sampling
  mode plays no part.
\<close>

theorem calculate_buffer:
  "data (object_of (calculate s)) = (if foldCaseMode s then map fold_byte (data s) else data s)"
  by (simp only: calculate_data fold_case_fields(4))

theorem calculate_buffer_witness:
  "\<not> isl (calculate (Ent [0x41, 0x62, 0x43, 0x64, 0x45, 0x66]))
   \<and> data (object_of (calculate (Ent [0x41, 0x62, 0x43, 0x64, 0x45, 0x66])))
       = [0x41, 0x62, 0x43, 0x64, 0x45, 0x66]
   \<and> \<not> isl (calculate (setFoldCaseMode True (Ent [0x41, 0x62, 0x43, 0x64, 0x45, 0x66])))
   \<and> data (object_of (calculate (setFoldCaseMode True (Ent [0x41, 0x62, 0x43, 0x64, 0x45, 0x66]))))
       = [0x61, 0x62, 0x63, 0x64, 0x65, 0x66]"
proof -
  let ?s = "Ent [0x41, 0x62, 0x43, 0x64, 0x45, 0x66]"
  have "\<not> isl (calculate ?s)" "\<not> isl (calculate (setFoldCaseMode True ?s))"
    by (rule calculate_returns; simp add: Ent_def setFoldCaseMode_def total_samples_def)+
  then show ?thesis
    using calculate_buffer[of ?s] calculate_buffer[of "setFoldCaseMode True ?s"]
    by (simp add: Ent_def setFoldCaseMode_def fold_byte_def)
qed

text \<open>
  C7 as stated fails: with the fold-case flag set, \<open>calculate\<close> returns normally on
  the six bytes "ABCDEF" and leaves the buffer "abcdef".
\<close>

theorem fold_case_changes_buffer:
  "\<not> isl (calculate (setFoldCaseMode True (Ent [0x41, 0x42, 0x43, 0x44, 0x45, 0x46])))
   \<and> data (object_of (calculate (setFoldCaseMode True (Ent [0x41, 0x42, 0x43, 0x44, 0x45, 0x46]))))
       = [0x61, 0x62, 0x63, 0x64, 0x65, 0x66]"
proof -
  let ?s = "setFoldCaseMode True (Ent [0x41, 0x42, 0x43, 0x44, 0x45, 0x46])"
  have "\<not> isl (calculate ?s)"
    by (rule calculate_returns) (simp_all add: Ent_def setFoldCaseMode_def total_samples_def)
  moreover have "data (object_of (calculate ?s)) = [0x61, 0x62, 0x63, 0x64, 0x65, 0x66]"
    by (simp add: calculate_data fold_case_def Ent_def setFoldCaseMode_def fold_byte_def)
  ultimately show ?thesis by blast
qed

section \<open>A second invocation\<close>

text \<open>
  C9. Invoking \<open>calculate\<close> again on the object that an invocation has left, with
  the buffer and the flags untouched in between, gives the same outcome; when the
  first invocation returns an object, the second returns that same object, all seven
  result fields included.
\<close>

theorem calculate_twice:
  "calculate (object_of (calculate s)) = calculate s
   \<and> (\<forall>r. calculate s = Inr r \<longrightarrow> calculate r = Inr r)"
proof -
  have "calculate r = Inr r" if "calculate s = Inr r" for r
    using calculate_again[of s] that by (simp add: object_of_def)
  then show ?thesis
    using calculate_again by blast
qed

theorem calculate_twice_witness:
  "\<not> isl (calculate (Ent [1, 2, 3, 4, 5, 6]))
   \<and> calculate (projr (calculate (Ent [1, 2, 3, 4, 5, 6]))) = calculate (Ent [1, 2, 3, 4, 5, 6])"
proof -
  let ?s = "Ent [1, 2, 3, 4, 5, 6]"
  have "\<not> isl (calculate ?s)"
    by (rule calculate_returns) (simp_all add: Ent_def total_samples_def)
  then obtain r where r: "calculate ?s = Inr r"
    by (cases "calculate ?s") simp_all
  then show ?thesis
    using calculate_twice[of ?s] by simp
qed

section \<open>Exactly five bytes\<close>

lemma pi_estimate_update_eq:
  assumes "t\<lparr>pi_estimate := a\<rparr> = t\<lparr>pi_estimate := b\<rparr>"
  shows "a = b"
proof -
  have "pi_estimate (t\<lparr>pi_estimate := a\<rparr>) = pi_estimate (t\<lparr>pi_estimate := b\<rparr>)"
    using assms by (rule arg_cong)
  then show ?thesis by simp
qed

lemma calculate_Inr_pi:
  assumes "calculate s = Inr r" and "calculate_pi (fold_case s) = Inr ((fold_case s)\<lparr>pi_estimate := v\<rparr>)"
  shows "pi_estimate r = v"
proof -
  have "Inr ((fold_case s)\<lparr>pi_estimate := pi_estimate r\<rparr>)
        = (Inr ((fold_case s)\<lparr>pi_estimate := v\<rparr>) :: error + ent)"
    using calculate_Inr_fields(8)[OF assms(1)] assms(2) by simp
  then have "(fold_case s)\<lparr>pi_estimate := pi_estimate r\<rparr> = (fold_case s)\<lparr>pi_estimate := v\<rparr>"
    by (simp only: sum.inject)
  then show ?thesis by (rule pi_estimate_update_eq)
qed

lemma calculate_pi_five:
  assumes "length (data s) = 5"
  shows "calculate_pi s = Inr (s\<lparr>pi_estimate := NaN\<rparr>)"
proof -
  have "5 \<le> length (data s)" "length (data s) < 2 ^ 64" using assms by simp_all
  from calculate_pi_returns[OF this] show ?thesis
    using assms by (simp add: hit_count_def of_ull_def signed_inf_def)
qed

text \<open>
  C5, as the code has it. For a buffer of exactly 5 bytes the loop of \<open>calculate_pi\<close>
  does not run, and the estimate is the NaN of \<open>4.0 * 0 / 0\<close>, stored without any
  condition being reported: \<open>calculate\<close> returns normally and leaves this NaN.
\<close>

theorem pi_five_bytes:
  assumes "length (data s) = 5"
  shows "calculate_pi s = Inr (s\<lparr>pi_estimate := NaN\<rparr>)
         \<and> \<not> isl (calculate s)
         \<and> pi_estimate (object_of (calculate s)) = NaN"
proof -
  have "total_samples (streamOfBitsMode s) (data s) \<le> 8 * length (data s)"
    by (simp add: total_samples_def)
  then have ret: "\<not> isl (calculate s)"
    using assms by (intro calculate_returns) simp_all
  then obtain r where r: "calculate s = Inr r"
    by (cases "calculate s") simp_all
  have "length (data (fold_case s)) = 5" using assms by (simp add: fold_case_fields(1))
  from calculate_Inr_pi[OF r calculate_pi_five[OF this]]
  have "pi_estimate r = NaN" .
  then show ?thesis
    using ret calculate_pi_five[OF assms] by (simp add: r object_of_def)
qed

theorem pi_five_bytes_witness:
  "length (data (setStreamOfBitsMode True (Ent [1, 2, 3, 4, 5]))) = 5
   \<and> \<not> isl (calculate (setStreamOfBitsMode True (Ent [1, 2, 3, 4, 5])))
   \<and> pi_estimate (object_of (calculate (setStreamOfBitsMode True (Ent [1, 2, 3, 4, 5])))) = NaN"
  using pi_five_bytes[of "setStreamOfBitsMode True (Ent [1, 2, 3, 4, 5])"]
  by (simp add: Ent_def setStreamOfBitsMode_def)

text \<open>
  C5 as stated fails: on five zero bytes \<open>calculate\<close> returns normally, and the
  estimate it leaves is NaN.
\<close>

theorem five_bytes_calculate:
  "\<not> isl (calculate (Ent [0, 0, 0, 0, 0]))
   \<and> pi_estimate (object_of (calculate (Ent [0, 0, 0, 0, 0]))) = NaN"
proof -
  let ?s = "Ent [0, 0, 0, 0, 0]"
  have ret: "\<not> isl (calculate ?s)"
    by (rule calculate_returns) (simp_all add: Ent_def total_samples_def)
  then obtain r where r: "calculate ?s = Inr r"
    by (cases "calculate ?s") simp_all
  have "length (data (fold_case ?s)) = 5" by (simp add: fold_case_def Ent_def)
  from calculate_Inr_pi[OF r calculate_pi_five[OF this]]
  have "pi_estimate r = NaN" .
  then show ?thesis
    using ret by (simp add: r object_of_def)
qed

section \<open>The Monte Carlo estimate on six bytes or more\<close>

lemma of_ull_of_nat: "n < 2 ^ 53 \<Longrightarrow> of_ull (word_of_nat n) = Finite (real n)"
proof -
  assume a: "n < 2 ^ 53"
  then have "n < 2 ^ 64" by simp
  then have "unat (word_of_nat n :: ull) = n" by (simp add: unat_of_nat)
  then show ?thesis using a by (simp add: of_ull_def round_double_nat)
qed

lemma round_double_times4: "h < 2 ^ 53 \<Longrightarrow> round_double (4 * real h) = Finite (4 * real h)"
  using round_double_nat_pow[of h 2] by (simp add: mult.commute)

lemma calculate_pi_value:
  assumes "6 \<le> length (data s)" and "length (data s) < 2 ^ 53"
  shows "calculate_pi s =
     Inr (s\<lparr>pi_estimate :=
            round_double (4 * real (hit_count (data s)) / real (length (data s) div 6))\<rparr>)"
proof -
  have t: "length (data s) div 6 < 2 ^ 53" using assms(2) by simp
  then have h: "hit_count (data s) < 2 ^ 53" using hit_count_le[of "data s"] by simp
  have nz: "real (length (data s) div 6) \<noteq> 0" using assms(1) by simp
  have "5 \<le> length (data s)" "length (data s) < 2 ^ 64" using assms by simp_all
  from calculate_pi_returns[OF this] show ?thesis
    by (simp only: of_ull_of_nat[OF t] of_ull_of_nat[OF h] dmul.simps ddiv.simps
        round_double_times4[OF h] nz if_False)
qed

text \<open>
  C3. For a buffer of \<open>N \<ge> 6\<close> bytes the loop of \<open>calculate_pi\<close> runs over exactly
  \<open>N div 6\<close> groups, the groups of six consecutive bytes starting at the multiples
  of 6, so that the last \<open>N mod 6\<close> bytes are not read; group \<open>g\<close> has
  \<open>x = byte0 << 16 | byte1 << 8 | byte2\<close> and \<open>y = byte3 << 16 | byte4 << 8 | byte5\<close>
  and is a hit exactly when \<open>x\<^sup>2 + y\<^sup>2 < 2^48\<close>; the estimate is the \<open>double\<close>
  quotient \<open>4 * hits / (N div 6)\<close>. \<open>calculate\<close> returns on such a buffer when the
  counters of its chi-square step stay in range, and every run of \<open>calculate\<close> that
  returns leaves this estimate, taken on the buffer as the case fold left it.
\<close>

theorem pi_estimate_groups:
  assumes "6 \<le> length (data s)"
  shows "(length (data s) < 2 ^ 64 \<longrightarrow>
            pi_loop (data s) 0 0 0 =
              Inr (word_of_nat (hit_count (data s)), word_of_nat (length (data s) div 6)))
         \<and> (length (data s) < 2 ^ 53 \<longrightarrow>
            calculate_pi s =
              Inr (s\<lparr>pi_estimate :=
                     round_double (4 * real (hit_count (data s)) / real (length (data s) div 6))\<rparr>))
         \<and> (total_samples (streamOfBitsMode s) (data s) \<le> 2147483647 \<longrightarrow> \<not> isl (calculate s))
         \<and> (\<forall>r. calculate s = Inr r \<longrightarrow>
               pi_estimate r =
                 round_double (4 * real (hit_count (data (fold_case s)))
                                 / real (length (data s) div 6)))"
proof -
  have five: "5 \<le> length (data s)" using assms by simp
  have 1: "pi_loop (data s) 0 0 0 =
      Inr (word_of_nat (hit_count (data s)), word_of_nat (length (data s) div 6))"
    if "length (data s) < 2 ^ 64"
    using pi_loop_result[OF five that] .
  have 3: "\<not> isl (calculate s)" if "total_samples (streamOfBitsMode s) (data s) \<le> 2147483647"
    using calculate_returns[OF five that] .
  have 4: "pi_estimate r = round_double (4 * real (hit_count (data (fold_case s)))
                                 / real (length (data s) div 6))"
    if r: "calculate s = Inr r" for r
  proof -
    have "length (data (fold_case s)) \<le> total_samples (streamOfBitsMode s) (data (fold_case s))"
      by (simp add: total_samples_def)
    then have lt: "length (data (fold_case s)) < 2 ^ 53"
      using calculate_Inr_fields(3)[OF r] by simp
    have six: "6 \<le> length (data (fold_case s))" using assms by (simp add: fold_case_fields(1))
    from calculate_Inr_pi[OF r calculate_pi_value[OF six lt]]
    show ?thesis by (simp add: fold_case_fields(1))
  qed
  show ?thesis
    using 1 3 4 calculate_pi_value[OF assms] by blast
qed

theorem pi_estimate_groups_witness:
  "6 \<le> length (data (Ent [0, 0, 0, 0, 0, 0, 0xFF]))
   \<and> calculate_pi (Ent [0, 0, 0, 0, 0, 0, 0xFF])
       = Inr ((Ent [0, 0, 0, 0, 0, 0, 0xFF])\<lparr>pi_estimate := Finite 4\<rparr>)
   \<and> \<not> isl (calculate (Ent [0, 0, 0, 0, 0, 0, 0xFF]))
   \<and> pi_estimate (projr (calculate (Ent [0, 0, 0, 0, 0, 0, 0xFF]))) = Finite 4"
proof -
  let ?s = "Ent [0, 0, 0, 0, 0, 0, 0xFF]"
  have six: "6 \<le> length (data ?s)" by (simp add: data_Ent)
  have h: "hit_count (data ?s) = 1" "hit_count (data (fold_case ?s)) = 1" "length (data ?s) div 6 = 1"
    by (simp_all add: Ent_def fold_case_def hit_count_def is_hit_def packed_def)
  have v: "round_double 4 = Finite 4" using round_double_nat[of 4] by simp
  have len: "length (data ?s) < 2 ^ 53" "total_samples (streamOfBitsMode ?s) (data ?s) \<le> 2147483647"
    by (simp_all add: Ent_def total_samples_def)
  from pi_estimate_groups[OF six] len
  have a: "calculate_pi ?s = Inr (?s\<lparr>pi_estimate := Finite 4\<rparr>)"
    and b: "\<not> isl (calculate ?s)"
    and c: "\<forall>r. calculate ?s = Inr r \<longrightarrow> pi_estimate r = Finite 4"
    by (simp_all add: h v)
  from b obtain r where r: "calculate ?s = Inr r" by (cases "calculate ?s") simp_all
  with c have "pi_estimate (projr (calculate ?s)) = Finite 4" by simp
  with six a b show ?thesis by blast
qed

section \<open>The mean does not depend on the sampling mode\<close>

lemma accumulate_exact:
  assumes "a + 255 * length bs < 2 ^ 53"
  shows "foldl (\<lambda>acc b. dadd acc (of_byte b)) (Finite (real a)) bs
         = Finite (real (a + (\<Sum>b\<leftarrow>bs. unat b)))"
  using assms
proof (induction bs arbitrary: a)
  case Nil
  then show ?case by simp
next
  case (Cons b bs)
  have b: "unat b \<le> 255" using byte_value_less[of b] by simp
  then have "a + unat b < 2 ^ 53" using Cons.prems by simp
  then have step: "dadd (Finite (real a)) (of_byte b) = Finite (real (a + unat b))"
    using round_double_nat[of "a + unat b"] by (simp add: of_byte_def)
  have "(a + unat b) + 255 * length bs < 2 ^ 53" using Cons.prems b by simp
  from Cons.IH[OF this] show ?case
    by (simp add: step add.assoc)
qed

lemma real_byte_sum: "real (\<Sum>b\<leftarrow>bs. unat (b :: byte)) = (\<Sum>b\<leftarrow>bs. real (unat b))"
  by (induction bs) simp_all

lemma calculate_mean_value:
  assumes "data s \<noteq> []" and "255 * length (data s) < 2 ^ 53"
  shows "calculate_mean s = s\<lparr>mean := round_double (byte_mean (data s))\<rparr>"
proof -
  have acc: "accumulate (data s) = Finite (real (\<Sum>b\<leftarrow>data s. unat b))"
    using accumulate_exact[of 0 "data s"] assms(2) by (simp add: accumulate_def)
  have "length (data s) < 2 ^ 53" using assms(2) by simp
  then have n: "of_size (length (data s)) = Finite (real (length (data s)))"
    by (simp add: of_size_def round_double_nat)
  have "ddiv (accumulate (data s)) (of_size (length (data s))) = round_double (byte_mean (data s))"
    unfolding acc n byte_mean_def real_byte_sum using assms(1) by simp
  then show ?thesis
    by (simp only: calculate_mean_def)
qed

text \<open>
  C8. For a non-empty buffer the mean step stores the arithmetic mean of the byte
  values, as the \<open>double\<close> nearest to it, whatever the sampling mode; every run of
  \<open>calculate\<close> that returns leaves this mean of the buffer (as the case fold left it)
  in the object, the same in Bit mode and in Byte mode.
\<close>

theorem mean_is_byte_mean:
  assumes "data s \<noteq> []"
  shows "(255 * length (data s) < 2 ^ 53 \<longrightarrow>
            calculate_mean (setStreamOfBitsMode b s)
              = (setStreamOfBitsMode b s)\<lparr>mean := round_double (byte_mean (data s))\<rparr>)
         \<and> (5 \<le> length (data s) \<and> 8 * length (data s) \<le> 2147483647 \<longrightarrow>
              \<not> isl (calculate (setStreamOfBitsMode b s)))
         \<and> (\<forall>r. calculate (setStreamOfBitsMode b s) = Inr r
                \<longrightarrow> mean r = round_double (byte_mean (data (fold_case s))))"
proof -
  let ?s = "setStreamOfBitsMode b s"
  have d: "data ?s = data s" by (simp add: setStreamOfBitsMode_def)
  have fd: "data (fold_case ?s) = data (fold_case s)"
    by (simp add: setStreamOfBitsMode_def fold_case_def)
  have 1: "calculate_mean ?s = ?s\<lparr>mean := round_double (byte_mean (data s))\<rparr>"
    if "255 * length (data s) < 2 ^ 53"
    using calculate_mean_value[of ?s] assms that by (simp add: d)
  have 2: "\<not> isl (calculate ?s)" if "5 \<le> length (data s) \<and> 8 * length (data s) \<le> 2147483647"
  proof (rule calculate_returns)
    show "5 \<le> length (data ?s)" using that by (simp add: d)
    have "total_samples (streamOfBitsMode ?s) (data ?s) \<le> 8 * length (data s)"
      by (simp add: total_samples_def d)
    then show "total_samples (streamOfBitsMode ?s) (data ?s) \<le> 2147483647" using that by simp
  qed
  have 3: "mean r = round_double (byte_mean (data (fold_case s)))"
    if r: "calculate ?s = Inr r" for r
  proof -
    let ?t = "fold_case ?s"
    have "length (data ?t) \<le> total_samples (streamOfBitsMode ?s) (data ?t)"
      by (simp add: total_samples_def)
    then have "length (data ?t) < 2 ^ 40"
      using calculate_Inr_fields(3)[OF r] by simp
    then have small: "255 * length (data ?t) < 2 ^ 53" by simp
    have ne: "data ?t \<noteq> []" using calculate_Inr_fields(4)[OF r] by auto
    show ?thesis
      using calculate_Inr_fields(7)[OF r] calculate_mean_value[OF ne small] by (simp add: fd)
  qed
  show ?thesis using 1 2 3 by blast
qed

theorem mean_is_byte_mean_witness:
  "data (Ent [1, 2, 3, 4, 5, 6]) \<noteq> []
   \<and> mean (calculate_mean (Ent [1, 2, 3, 4, 5, 6])) = Finite (7 / 2)
   \<and> \<not> isl (calculate (setStreamOfBitsMode True (Ent [1, 2, 3, 4, 5, 6])))
   \<and> mean (projr (calculate (setStreamOfBitsMode True (Ent [1, 2, 3, 4, 5, 6])))) = Finite (7 / 2)
   \<and> \<not> isl (calculate (setStreamOfBitsMode False (Ent [1, 2, 3, 4, 5, 6])))
   \<and> mean (projr (calculate (setStreamOfBitsMode False (Ent [1, 2, 3, 4, 5, 6])))) = Finite (7 / 2)"
proof -
  let ?s = "Ent [1, 2, 3, 4, 5, 6]"
  have ne: "data ?s \<noteq> []" by (simp add: data_Ent)
  have m: "round_double (byte_mean (data ?s)) = Finite (7 / 2)"
    "round_double (byte_mean (data (fold_case ?s))) = Finite (7 / 2)"
    by (simp_all add: fold_case_def Ent_def byte_mean_def round_double_values)
  have len: "255 * length (data ?s) < 2 ^ 53" "5 \<le> length (data ?s) \<and> 8 * length (data ?s) \<le> 2147483647"
    by (simp_all add: data_Ent)
  have s: "setStreamOfBitsMode False ?s = ?s" by (simp add: setStreamOfBitsMode_def Ent_def)
  note T = mean_is_byte_mean[OF ne, of True] and F = mean_is_byte_mean[OF ne, of False]
  have t1: "\<not> isl (calculate (setStreamOfBitsMode True ?s))" using T len by blast
  have f1: "\<not> isl (calculate (setStreamOfBitsMode False ?s))" using F len by blast
  have f0: "calculate_mean (setStreamOfBitsMode False ?s)
      = (setStreamOfBitsMode False ?s)\<lparr>mean := round_double (byte_mean (data ?s))\<rparr>"
    using F len by blast
  from t1 obtain r1 where r1: "calculate (setStreamOfBitsMode True ?s) = Inr r1"
    by (cases "calculate (setStreamOfBitsMode True ?s)") simp_all
  from f1 obtain r2 where r2: "calculate (setStreamOfBitsMode False ?s) = Inr r2"
    by (cases "calculate (setStreamOfBitsMode False ?s)") simp_all
  have t2: "mean r1 = round_double (byte_mean (data (fold_case ?s)))" using T r1 by blast
  have f2: "mean r2 = round_double (byte_mean (data (fold_case ?s)))" using F r2 by blast
  have "mean (calculate_mean ?s) = Finite (7 / 2)"
    using f0 by (simp add: s m)
  then show ?thesis
    using ne t1 f1 by (simp add: r1 r2 t2 f2 m)
qed

text \<open>The mean of the three bytes 0, 0, 1 is the binary64 value nearest to 1/3.\<close>

lemma round_double_third:
  "round_double (1 / 3) = Finite (6004799503160661 / 18014398509481984)"
proof -
  have L: "\<lfloor>log 2 \<bar>1 / 3 :: real\<bar>\<rfloor> = - 2"
    by (subst floor_log_eq_powr_iff) (simp_all add: powr_minus_divide)
  have e: "ulp_exponent (1 / 3) = - 54"
    by (simp only: ulp_exponent_def L)
  have p: "(2::real) powr of_int (- 54) = 1 / 18014398509481984"
    by (simp add: powr_minus_divide)
  have r: "round_even ((1 / 3) / (1 / 18014398509481984)) = 6004799503160661"
    by (simp add: round_even_def)
  show ?thesis
    by (simp only: round_double_def e p r Let_def) simp
qed

lemma mean_of_0_0_1:
  "mean (calculate_mean (Ent [0, 0, 1])) = Finite (6004799503160661 / 18014398509481984)"
proof -
  have "data (Ent [0, 0, 1]) \<noteq> []" "255 * length (data (Ent [0, 0, 1])) < 2 ^ 53"
    by (simp_all add: data_Ent)
  from calculate_mean_value[OF this] show ?thesis
    by (simp add: data_Ent byte_mean_def round_double_third)
qed

section \<open>Entropy and compression are those of the specification\<close>

text \<open>
  C1. For a non-empty buffer, in either sampling mode, the entropy step stores minus
  the sum of \<open>p_i * log2 p_i\<close> over the symbols of the mode's alphabet with
  \<open>p_i > 0\<close>, where \<open>p_i\<close> is the number of occurrences of symbol \<open>i\<close> divided by the
  number of samples (8 times the length in Bit mode, bits taken least significant
  first; the length in Byte mode), and the compression percentage \<open>100 * (1 - entropy
  / max_entropy)\<close> with \<open>max_entropy\<close> 1 in Bit mode and 8 in Byte mode, all in
  \<open>double\<close> arithmetic; the counts are exact as long as the samples number less than
  \<open>2^53\<close>. Every run of \<open>calculate\<close> that returns leaves these two values, computed on
  the buffer as the case fold left it.
\<close>

theorem entropy_is_shannon:
  assumes "data s \<noteq> []"
  shows "(total_samples (streamOfBitsMode s) (data s) < 2 ^ 53 \<longrightarrow>
            calculate_entropy s =
              s\<lparr>entropy := shannon (streamOfBitsMode s) (data s),
                compression := compression_percent (streamOfBitsMode s) (data s)\<rparr>)
         \<and> (5 \<le> length (data s) \<and> total_samples (streamOfBitsMode s) (data s) \<le> 2147483647
              \<longrightarrow> \<not> isl (calculate s))
         \<and> (\<forall>r. calculate s = Inr r \<longrightarrow>
               entropy r = shannon (streamOfBitsMode s) (data (fold_case s))
               \<and> compression r = compression_percent (streamOfBitsMode s) (data (fold_case s)))"
proof -
  have 1: "calculate_entropy s =
              s\<lparr>entropy := shannon (streamOfBitsMode s) (data s),
                compression := compression_percent (streamOfBitsMode s) (data s)\<rparr>"
    if "total_samples (streamOfBitsMode s) (data s) < 2 ^ 53"
    using calculate_entropy_shannon[OF assms that] .
  have 2: "\<not> isl (calculate s)"
    if "5 \<le> length (data s) \<and> total_samples (streamOfBitsMode s) (data s) \<le> 2147483647"
    using that by (intro calculate_returns) simp_all
  have 3: "entropy r = shannon (streamOfBitsMode s) (data (fold_case s))
               \<and> compression r = compression_percent (streamOfBitsMode s) (data (fold_case s))"
    if r: "calculate s = Inr r" for r
  proof -
    let ?t = "fold_case s"
    have ne: "data ?t \<noteq> []" using assms by (simp add: fold_case_fields(4))
    have "total_samples (streamOfBitsMode ?t) (data ?t) < 2 ^ 40"
      using calculate_Inr_fields(3)[OF r] by (simp add: fold_case_fields(2))
    then have small: "total_samples (streamOfBitsMode ?t) (data ?t) < 2 ^ 53" by simp
    show ?thesis
      using calculate_Inr_fields(5,6)[OF r] calculate_entropy_shannon[OF ne small]
      by (simp add: fold_case_fields(2))
  qed
  show ?thesis using 1 2 3 by blast
qed

lemma shannon_nibbles: "shannon True [0x0F, 0x0F, 0x0F, 0x0F, 0x0F, 0x0F] = Finite 1"
proof -
  let ?bs = "[0x0F, 0x0F, 0x0F, 0x0F, 0x0F, 0x0F] :: byte list"
  have o: "occurrences True ?bs 0 = 24" "occurrences True ?bs (Suc 0) = 24"
    and t: "total_samples True ?bs = 48" and u: "[0..<2] = [0, Suc 0]"
    by code_simp+
  have log_half: "log 2 (1 / 2) = - 1"
    by (simp add: log_divide)
  have p: "probability True ?bs 0 = Finite (1 / 2)" "probability True ?bs (Suc 0) = Finite (1 / 2)"
    by (simp_all add: probability_def o t round_double_values)
  have h: "round_double (- (1 / 2)) = Finite (- (1 / 2))"
    by (simp only: round_double_neg round_double_values dneg.simps)
  show ?thesis
    by (simp add: shannon_def double_sum_def alphabet_def u p dgt_def log_half h
        round_double_values)
qed

theorem entropy_is_shannon_witness:
  "data (setStreamOfBitsMode True (Ent [0x0F, 0x0F, 0x0F, 0x0F, 0x0F, 0x0F])) \<noteq> []
   \<and> entropy (calculate_entropy (setStreamOfBitsMode True (Ent [0x0F, 0x0F, 0x0F, 0x0F, 0x0F, 0x0F])))
       = Finite 1
   \<and> \<not> isl (calculate (setStreamOfBitsMode True (Ent [0x0F, 0x0F, 0x0F, 0x0F, 0x0F, 0x0F])))
   \<and> entropy (projr (calculate (setStreamOfBitsMode True (Ent [0x0F, 0x0F, 0x0F, 0x0F, 0x0F, 0x0F]))))
       = Finite 1
   \<and> compression (projr (calculate (setStreamOfBitsMode True (Ent [0x0F, 0x0F, 0x0F, 0x0F, 0x0F, 0x0F]))))
       = Finite 0"
proof -
  let ?bs = "[0x0F, 0x0F, 0x0F, 0x0F, 0x0F, 0x0F] :: byte list"
  let ?s = "setStreamOfBitsMode True (Ent ?bs)"
  have d: "data ?s = ?bs" "streamOfBitsMode ?s = True" "data (fold_case ?s) = ?bs"
    by (simp_all add: setStreamOfBitsMode_def Ent_def fold_case_def)
  have ne: "data ?s \<noteq> []" by (simp add: d)
  have len: "total_samples (streamOfBitsMode ?s) (data ?s) < 2 ^ 53"
    "5 \<le> length (data ?s) \<and> total_samples (streamOfBitsMode ?s) (data ?s) \<le> 2147483647"
    by (simp_all add: d total_samples_def)
  have c: "compression_percent True ?bs = Finite 0"
    by (simp add: compression_percent_def shannon_nibbles max_entropy_def dsub_def
        round_double_values)
  note E = entropy_is_shannon[OF ne]
  have e1: "calculate_entropy ?s = ?s\<lparr>entropy := shannon True ?bs,
      compression := compression_percent True ?bs\<rparr>"
    using E len(1) unfolding d by blast
  have ret: "\<not> isl (calculate ?s)" using E len(2) by blast
  then obtain r where r: "calculate ?s = Inr r" by (cases "calculate ?s") simp_all
  have "entropy r = shannon True ?bs \<and> compression r = compression_percent True ?bs"
    using E r unfolding d by blast
  then show ?thesis
    using ne ret by (simp add: e1 r shannon_nibbles c)
qed

section \<open>Serial correlation of a constant buffer\<close>

lemma correlation_cancels:
  "ddiv (dsub Y Y) (dsqrt (dmul (dsub Y Y) (dsub Y Y))) = NaN"
  by (cases Y) (simp_all add: dsub_def signed_inf_def)

lemma correlation_constant:
  fixes v :: byte
  assumes "n * unat v < 2 ^ 32"
  shows "correlation (of_size n)
           (word_of_nat n * ucast v, word_of_nat n * ucast v,
            word_of_nat n * (ucast v * ucast v), word_of_nat n * (ucast v * ucast v),
            word_of_nat n * (ucast v * ucast v)) = NaN"
proof (cases "n = 0")
  case True
  have "correlation (Finite 0) (0, 0, 0, 0, 0) = NaN"
    by (simp add: correlation_def of_ull_def dsub_def signed_inf_def)
  then show ?thesis using True by (simp add: of_size_def)
next
  case False
  let ?a = "unat v"
  have a: "?a < 256" by (rule byte_value_less)
  have "n * 1 \<le> n * ?a \<or> ?a = 0" by (cases "?a = 0") simp_all
  have na: "n * ?a < 2 ^ 64" using assms by simp
  have "n * ?a * ?a \<le> n * ?a * 256" using a by simp
  also have "\<dots> < 2 ^ 32 * 256" using assms by simp
  finally have naa40: "n * (?a * ?a) < 2 ^ 40" by (simp add: mult.assoc)
  then have naa: "n * (?a * ?a) < 2 ^ 64" and naa53: "n * (?a * ?a) < 2 ^ 53" by simp_all
  have "(n * ?a) * (n * ?a) < 2 ^ 32 * 2 ^ 32"
    using assms by (intro mult_strict_mono) simp_all
  then have sq: "(n * ?a) * (n * ?a) < 2 ^ 64" by simp
  have sumX: "unat (word_of_nat n * ucast v :: ull) = n * ?a"
    using na by (simp add: unat_word_ariths unat_of_nat unat_ucast_byte mod_mult_left_eq)
  have sumXY: "unat (word_of_nat n * (ucast v * ucast v) :: ull) = n * (?a * ?a)"
    using naa by (simp add: unat_word_ariths unat_of_nat unat_ucast_byte mod_mult_eq)
  have prod: "unat ((word_of_nat n * ucast v) * (word_of_nat n * ucast v) :: ull) = (n * ?a) * (n * ?a)"
    using sq by (simp only: unat_word_ariths(2)[of "word_of_nat n * ucast v"] sumX) simp
  show ?thesis
  proof (cases "?a = 0")
    case True
    then have v0: "v = 0" by (simp add: unat_eq_0)
    show ?thesis
      by (cases "of_size n")
         (simp_all add: v0 correlation_def of_ull_def dsub_def signed_inf_def)
  next
    case nz: False
    then have "1 \<le> ?a" by simp
    then have "n * 1 \<le> n * ?a" by (rule mult_le_mono2)
    then have "n < 2 ^ 32" using assms by linarith
    then have "n < 2 ^ 53" by simp
    then have n: "of_size n = Finite (real n)" by (simp add: of_size_def round_double_nat)
    have xy: "of_ull (word_of_nat n * (ucast v * ucast v)) = Finite (real (n * (?a * ?a)))"
      by (simp only: of_ull_def sumXY round_double_nat[OF naa53])
    have same: "real n * real (n * (?a * ?a)) = real ((n * ?a) * (n * ?a))"
      by (simp add: algebra_simps)
    have num: "dmul (of_size n) (of_ull (word_of_nat n * (ucast v * ucast v)))
               = of_ull ((word_of_nat n * ucast v) * (word_of_nat n * ucast v))"
    proof -
      have "dmul (of_size n) (of_ull (word_of_nat n * (ucast v * ucast v)))
            = round_double (real ((n * ?a) * (n * ?a)))"
        by (simp only: n xy dmul.simps same)
      also have "\<dots> = of_ull ((word_of_nat n * ucast v) * (word_of_nat n * ucast v))"
        by (simp only: of_ull_def prod)
      finally show ?thesis .
    qed
    show ?thesis
      by (simp only: correlation_def prod.case num correlation_cancels)
  qed
qed

lemma serial_correlation_update_eq:
  assumes "t\<lparr>serial_correlation := a\<rparr> = t\<lparr>serial_correlation := b\<rparr>"
  shows "a = b"
proof -
  have "serial_correlation (t\<lparr>serial_correlation := a\<rparr>)
        = serial_correlation (t\<lparr>serial_correlation := b\<rparr>)"
    using assms by (rule arg_cong)
  then show ?thesis by simp
qed

lemma calculate_Inr_serial:
  assumes "calculate s = Inr r"
    and "calculate_serial_correlation (fold_case s) = Inr ((fold_case s)\<lparr>serial_correlation := v\<rparr>)"
  shows "serial_correlation r = v"
proof -
  have "Inr ((fold_case s)\<lparr>serial_correlation := serial_correlation r\<rparr>)
        = (Inr ((fold_case s)\<lparr>serial_correlation := v\<rparr>) :: error + ent)"
    using calculate_Inr_fields(9)[OF assms(1)] assms(2) by simp
  then have "(fold_case s)\<lparr>serial_correlation := serial_correlation r\<rparr>
             = (fold_case s)\<lparr>serial_correlation := v\<rparr>"
    by (simp only: sum.inject)
  then show ?thesis by (rule serial_correlation_update_eq)
qed

text \<open>
  Below the wrap of the 64-bit products, a returning run on a buffer whose bytes
  (after the case fold) all have the value \<open>v\<close> leaves the NaN of 0/0, for which the
  test of \<open>print_result\<close> fails.
\<close>

lemma constant_buffer_correlation:
  assumes "calculate s = Inr r" and "data (fold_case s) = replicate N v"
    and "(N - 1) * unat v < 2 ^ 32"
  shows "serial_correlation r = NaN \<and> \<not> prints_number (serial_correlation r)"
proof -
  have "5 \<le> N" using calculate_Inr_fields(4)[OF assms(1)] by (simp add: assms(2))
  moreover have "N < 2 ^ 40"
  proof -
    have "length (data (fold_case s)) \<le> total_samples (streamOfBitsMode s) (data (fold_case s))"
      by (simp add: total_samples_def)
    then show ?thesis using calculate_Inr_fields(3)[OF assms(1)] by (simp add: assms(2))
  qed
  ultimately have u: "usub N 1 = N - 1" by (intro usub_1) simp_all
  have "calculate_serial_correlation (fold_case s) = Inr ((fold_case s)\<lparr>serial_correlation := NaN\<rparr>)"
    using serial_correlation_replicate[OF assms(2)] correlation_constant[OF assms(3)]
    by (simp only: u)
  from calculate_Inr_serial[OF assms(1) this] show ?thesis
    by (simp add: prints_number_def dge_def)
qed

text \<open>
  C6 fails on large inputs. For 33554433 bytes of value 0x80 the sum of the bytes is
  \<open>2^32\<close>; its square \<open>sumX * sumY\<close> wraps to 0 in \<open>unsigned long long\<close>, while
  the sibling term \<open>n * sumXY\<close> is computed in \<open>double\<close> and is \<open>2^64\<close>. The
  serial-correlation step, and \<open>calculate\<close>, which returns on this buffer, leave the
  number 1.0, although all bytes are equal.
\<close>

theorem large_constant_buffer_correlation:
  "calculate_serial_correlation (Ent (replicate 33554433 0x80))
     = Inr ((Ent (replicate 33554433 0x80))\<lparr>serial_correlation := Finite 1\<rparr>)
   \<and> \<not> isl (calculate (Ent (replicate 33554433 0x80)))
   \<and> serial_correlation (object_of (calculate (Ent (replicate 33554433 0x80)))) = Finite 1
   \<and> prints_number (serial_correlation (object_of (calculate (Ent (replicate 33554433 0x80)))))"
proof -
  let ?s = "Ent (replicate 33554433 0x80)"
  have sq: "sqrt (340282366920938463463374607431768211456 :: real) = 18446744073709551616"
  proof -
    have "sqrt ((18446744073709551616 :: real) * 18446744073709551616) = 18446744073709551616"
      by (simp only: real_sqrt_abs2)
    then show ?thesis by simp
  qed
  have r128: "round_double 340282366920938463463374607431768211456
              = Finite 340282366920938463463374607431768211456"
    using round_double_nat_pow[of 1 128] by simp
  have r25: "round_double 33554432 = Finite 33554432"
    and r39: "round_double 549755813888 = Finite 549755813888"
    using round_double_nat[of 33554432] round_double_nat[of 549755813888] by simp_all
  have c: "correlation (of_size (usub 33554433 1))
          (word_of_nat (33554433 - 1) * ucast (0x80 :: byte),
           word_of_nat (33554433 - 1) * ucast (0x80 :: byte),
           word_of_nat (33554433 - 1) * (ucast (0x80 :: byte) * ucast (0x80 :: byte)),
           word_of_nat (33554433 - 1) * (ucast (0x80 :: byte) * ucast (0x80 :: byte)),
           word_of_nat (33554433 - 1) * (ucast (0x80 :: byte) * ucast (0x80 :: byte))) = Finite 1"
    by (simp add: correlation_def of_size_def usub_def of_ull_def dsub_def sq r128 r25 r39
        round_double_values)
  have step: "calculate_serial_correlation ?s = Inr (?s\<lparr>serial_correlation := Finite 1\<rparr>)"
    using serial_correlation_replicate[of ?s 33554433 "0x80", OF data_Ent]
    by (simp only: c)
  have f: "fold_case ?s = ?s"
    by (simp only: fold_case_def Ent_def ent.simps if_False)
  have "5 \<le> length (data ?s)"
    and "total_samples (streamOfBitsMode ?s) (data ?s) \<le> 2147483647"
    by (simp_all only: data_Ent length_replicate total_samples_def Ent_def ent.simps if_False)
  then have ret: "\<not> isl (calculate ?s)" by (rule calculate_returns)
  then obtain r where r: "calculate ?s = Inr r" by (cases "calculate ?s") simp_all
  have "calculate_serial_correlation (fold_case ?s)
        = Inr ((fold_case ?s)\<lparr>serial_correlation := Finite 1\<rparr>)"
    using step by (simp only: f)
  from calculate_Inr_serial[OF r this] have v: "serial_correlation r = Finite 1" .
  have "object_of (calculate ?s) = r" by (simp only: r object_of_def sum.case)
  then show ?thesis
    using step ret v by (simp add: prints_number_def dge_def)
qed

end
